theory Spec2Isabelle
  imports Main
begin

section \<open>Python strings\<close>

text \<open>
  A Python \<open>str\<close> is a sequence of Unicode code points; a code point is a natural number.
  \<open>py\<close> turns an Isabelle string literal into the \<open>str\<close> of the same (Latin-1) characters.
\<close>

type_synonym str = "nat list"

definition py :: "string \<Rightarrow> str" where
  "py s = map of_char s"

text \<open>
  \<open>str.isspace\<close> on one code point: the characters of general category Zs or of
  bidirectional class WS, B or S.
\<close>

definition unicode_isspace :: "nat \<Rightarrow> bool" where
  "unicode_isspace c =
     ((9 \<le> c \<and> c \<le> 13) \<or> (28 \<le> c \<and> c \<le> 32) \<or> c = 133 \<or> c = 160 \<or> c = 5760
      \<or> (8192 \<le> c \<and> c \<le> 8202) \<or> c = 8232 \<or> c = 8233 \<or> c = 8239 \<or> c = 8287
      \<or> c = 12288)"

text \<open>
  \<open>str.isdigit\<close> on one code point. Below U+0100 the digits are \<open>0\<close> to \<open>9\<close> and the
  superscripts two, three and one. Above, the answer is a table of the interpreter's
  Unicode database, which is not part of the program: the model leaves it unspecified,
  except that it starts at U+0660 and that no whitespace character is a digit.
\<close>

definition unicode_digit_table :: "nat \<Rightarrow> bool" where
  "unicode_digit_table = (SOME f. \<forall>c. f c \<longrightarrow> 1632 \<le> c \<and> \<not> unicode_isspace c)"

definition unicode_isdigit :: "nat \<Rightarrow> bool" where
  "unicode_isdigit c =
     (if c < 256 then (48 \<le> c \<and> c \<le> 57) \<or> c = 178 \<or> c = 179 \<or> c = 185
      else unicode_digit_table c)"

text \<open>The methods on a whole string: false on the empty string.\<close>

definition isspace :: "str \<Rightarrow> bool" where
  "isspace s = (s \<noteq> [] \<and> list_all unicode_isspace s)"

definition isdigit :: "str \<Rightarrow> bool" where
  "isdigit s = (s \<noteq> [] \<and> list_all unicode_isdigit s)"

section \<open>Python numbers\<close>

text \<open>
  A \<open>float\<close> is an IEEE binary64 value. \<open>Fin m e\<close> is the finite value \<open>m * 2 ^ e\<close>, kept
  with \<open>m\<close> odd (zero is \<open>Fin 0 0\<close>). The sign of zero is not kept: the program never
  divides by a zero (it raises first), and raising a zero to a negative power is an
  error for either sign, so the sign of a zero never reaches a result.
\<close>

datatype pyfloat = Fin int int | PInf | NInf | NaN

datatype pyval = PyInt int | PyFloat pyfloat | PyComplex pyfloat pyfloat

datatype pytype = TInt | TFloat | TComplex

fun py_type :: "pyval \<Rightarrow> pytype" where
  "py_type (PyInt n) = TInt"
| "py_type (PyFloat x) = TFloat"
| "py_type (PyComplex re im) = TComplex"

datatype pyexn = OverflowError | ZeroDivisionError | TypeError | ValueError

function bit_length :: "nat \<Rightarrow> nat" where
  "bit_length n = (if n = 0 then 0 else Suc (bit_length (n div 2)))"
  by pat_completeness auto
termination
  by (relation "measure id") auto

declare bit_length.simps [simp del]

function norm_float :: "int \<Rightarrow> int \<Rightarrow> pyfloat" where
  "norm_float m e =
     (if m = 0 then Fin 0 0
      else if even m then norm_float (m div 2) (e + 1)
      else Fin m e)"
  by pat_completeness auto
termination
  by (relation "measure (\<lambda>(m, e). nat \<bar>m\<bar>)") auto

declare norm_float.simps [simp del]

text \<open>\<open>floor_log2_ratio n d\<close> is the floor of the binary logarithm of \<open>n / d\<close>, for positive \<open>n\<close> and \<open>d\<close>.\<close>

definition floor_log2_ratio :: "int \<Rightarrow> int \<Rightarrow> int" where
  "floor_log2_ratio n d =
     (let s = int (bit_length (nat n)) - int (bit_length (nat d))
      in if (if 0 \<le> s then d * 2 ^ nat s \<le> n else d \<le> n * 2 ^ nat (- s))
         then s else s - 1)"

text \<open>
  Rounding to nearest, ties to even, of the positive value \<open>n / d * 2 ^ e\<close> to binary64:
  53 bits of precision, least exponent \<open>-1074\<close>, overflow to infinity from \<open>2 ^ 1024\<close>.
  The second component says whether the value was representable as it is.
\<close>

definition round_ratio :: "int \<Rightarrow> int \<Rightarrow> int \<Rightarrow> pyfloat \<times> bool" where
  "round_ratio n d e =
     (let k = max (floor_log2_ratio n d + e - 52) (- 1074);
          sh = e - k;
          num = (if 0 \<le> sh then n * 2 ^ nat sh else n);
          den = (if 0 \<le> sh then d else d * 2 ^ nat (- sh));
          q = num div den;
          r = num mod den;
          m = (if 2 * r < den then q else if den < 2 * r then q + 1
               else if even q then q else q + 1)
      in if 1024 < int (bit_length (nat m)) + k then (PInf, False)
         else (norm_float m k, r = 0))"

fun fneg :: "pyfloat \<Rightarrow> pyfloat" where
  "fneg (Fin m e) = Fin (- m) e"
| "fneg PInf = NInf"
| "fneg NInf = PInf"
| "fneg NaN = NaN"

text \<open>The same for a value of either sign, with positive \<open>d\<close>.\<close>

definition round_rat :: "int \<Rightarrow> int \<Rightarrow> int \<Rightarrow> pyfloat \<times> bool" where
  "round_rat n d e =
     (if n = 0 then (Fin 0 0, True)
      else if 0 < n then round_ratio n d e
      else (case round_ratio (- n) d e of (x, exact) \<Rightarrow> (fneg x, exact)))"

definition round64 :: "int \<Rightarrow> int \<Rightarrow> int \<Rightarrow> pyfloat" where
  "round64 n d e = fst (round_rat n d e)"


subsection \<open>Float arithmetic\<close>

text \<open>\<open>scaled m e k\<close> is the mantissa of \<open>m * 2 ^ e\<close> at the smaller exponent \<open>k\<close>.\<close>

definition scaled :: "int \<Rightarrow> int \<Rightarrow> int \<Rightarrow> int" where
  "scaled m e k = m * 2 ^ nat (e - k)"

text \<open>The sign of \<open>fin_diff m1 e1 m2 e2\<close> is the sign of \<open>m1 * 2 ^ e1 - m2 * 2 ^ e2\<close>.\<close>

definition fin_diff :: "int \<Rightarrow> int \<Rightarrow> int \<Rightarrow> int \<Rightarrow> int" where
  "fin_diff m1 e1 m2 e2 = scaled m1 e1 (min e1 e2) - scaled m2 e2 (min e1 e2)"

fun fadd :: "pyfloat \<Rightarrow> pyfloat \<Rightarrow> pyfloat" where
  "fadd NaN y = NaN"
| "fadd x NaN = NaN"
| "fadd PInf NInf = NaN"
| "fadd NInf PInf = NaN"
| "fadd PInf y = PInf"
| "fadd x PInf = PInf"
| "fadd NInf y = NInf"
| "fadd x NInf = NInf"
| "fadd (Fin m1 e1) (Fin m2 e2) =
     round64 (scaled m1 e1 (min e1 e2) + scaled m2 e2 (min e1 e2)) 1 (min e1 e2)"

definition fsub :: "pyfloat \<Rightarrow> pyfloat \<Rightarrow> pyfloat" where
  "fsub x y = fadd x (fneg y)"

fun fsign :: "pyfloat \<Rightarrow> int" where
  "fsign (Fin m e) = sgn m"
| "fsign PInf = 1"
| "fsign NInf = - 1"
| "fsign NaN = 0"

fun is_finite :: "pyfloat \<Rightarrow> bool" where
  "is_finite (Fin m e) = True"
| "is_finite x = False"

fun fmul :: "pyfloat \<Rightarrow> pyfloat \<Rightarrow> pyfloat" where
  "fmul NaN y = NaN"
| "fmul x NaN = NaN"
| "fmul (Fin m1 e1) (Fin m2 e2) = round64 (m1 * m2) 1 (e1 + e2)"
| "fmul x y =
     (if fsign x * fsign y = 0 then NaN else if 0 < fsign x * fsign y then PInf else NInf)"

text \<open>IEEE division by a divisor that is not zero (Python raises on a zero divisor before dividing).\<close>

fun fdiv :: "pyfloat \<Rightarrow> pyfloat \<Rightarrow> pyfloat" where
  "fdiv NaN y = NaN"
| "fdiv x NaN = NaN"
| "fdiv (Fin m1 e1) (Fin m2 e2) =
     (if 0 < m2 then round64 m1 m2 (e1 - e2) else round64 (- m1) (- m2) (e1 - e2))"
| "fdiv (Fin m1 e1) y = Fin 0 0"
| "fdiv x (Fin m2 e2) = (if 0 < fsign x * sgn m2 then PInf else NInf)"
| "fdiv x y = NaN"

text \<open>\<open>float.is_integer\<close>, \<open>int(x)\<close> on a float (truncation), and the tests of \<open>float_pow\<close>.\<close>

fun float_is_integer :: "pyfloat \<Rightarrow> bool" where
  "float_is_integer (Fin m e) = (0 \<le> e \<or> m mod 2 ^ nat (- e) = 0)"
| "float_is_integer x = False"

fun int_of_float :: "pyfloat \<Rightarrow> pyexn + int" where
  "int_of_float (Fin m e) =
     Inr (if 0 \<le> e then m * 2 ^ nat e else sgn m * (\<bar>m\<bar> div 2 ^ nat (- e)))"
| "int_of_float NaN = Inl ValueError"
| "int_of_float x = Inl OverflowError"

definition is_odd_integer :: "pyfloat \<Rightarrow> bool" where
  "is_odd_integer x =
     (float_is_integer x \<and> (case int_of_float x of Inr n \<Rightarrow> odd n | Inl err \<Rightarrow> False))"

fun fless :: "pyfloat \<Rightarrow> pyfloat \<Rightarrow> bool" where
  "fless NaN y = False"
| "fless x NaN = False"
| "fless (Fin m1 e1) (Fin m2 e2) = (fin_diff m1 e1 m2 e2 < 0)"
| "fless x PInf = (x \<noteq> PInf)"
| "fless NInf y = (y \<noteq> NInf)"
| "fless x y = False"

fun feq :: "pyfloat \<Rightarrow> pyfloat \<Rightarrow> bool" where
  "feq (Fin m1 e1) (Fin m2 e2) = (fin_diff m1 e1 m2 e2 = 0)"
| "feq PInf PInf = True"
| "feq NInf NInf = True"
| "feq x y = False"

fun fabs :: "pyfloat \<Rightarrow> pyfloat" where
  "fabs (Fin m e) = Fin \<bar>m\<bar> e"
| "fabs NInf = PInf"
| "fabs x = x"

text \<open>\<open>float(n)\<close> for an \<open>int\<close>: correctly rounded, OverflowError beyond the largest float.\<close>

definition float_of_int :: "int \<Rightarrow> pyexn + pyfloat" where
  "float_of_int n =
     (case round64 n 1 0 of Fin m e \<Rightarrow> Inr (Fin m e) | x \<Rightarrow> Inl OverflowError)"

fun to_float :: "pyval \<Rightarrow> pyexn + pyfloat" where
  "to_float (PyInt n) = float_of_int n"
| "to_float (PyFloat x) = Inr x"
| "to_float (PyComplex re im) = Inl TypeError"


subsection \<open>The C library\<close>

text \<open>
  \<open>float ** float\<close> ends in the C library's \<open>pow\<close>, and a negative base with a fractional
  exponent in the complex power; complex arithmetic goes through the C library as well.
  The library is not part of the program. Where the mathematical result is a float, every
  library returns it, and the model computes it. Elsewhere the result depends on the
  library, and the model leaves it unspecified within what every library guarantees:
  \<^item> \<open>libm_approx x y\<close>, the result of \<open>pow\<close> when \<open>x ** y\<close> is not a float, is finite when
    \<open>x\<close> is a normal float and \<open>\<bar>y\<bar> \<le> 1\<close> (then \<open>x ** y\<close> lies between \<open>x\<close> and \<open>1 / x\<close>);
  \<^item> \<open>complex_arith\<close> is complex arithmetic: \<open>+\<close>, \<open>-\<close> and \<open>*\<close> return a complex number;
    \<open>/\<close> returns one or raises ZeroDivisionError; \<open>**\<close> returns one or raises
    ZeroDivisionError or OverflowError. For a negative float base \<open>x\<close> and a fractional
    float exponent \<open>y\<close> the result of \<open>**\<close> has the modulus \<open>pow(\<bar>x\<bar>, y)\<close>, and the
    OverflowError is raised exactly when that overflows.
\<close>

definition libm_approx_spec :: "(pyfloat \<Rightarrow> pyfloat \<Rightarrow> pyfloat) \<Rightarrow> bool" where
  "libm_approx_spec f =
     (\<forall>x y. is_finite x \<and> \<not> fless x (Fin 1 (- 1022)) \<and> is_finite y
            \<and> \<not> fless (Fin 1 0) (fabs y) \<longrightarrow> is_finite (f x y))"

definition libm_approx :: "pyfloat \<Rightarrow> pyfloat \<Rightarrow> pyfloat" where
  "libm_approx = (SOME f. libm_approx_spec f)"

text \<open>
  \<open>c_pow x y\<close> is the C library's \<open>pow\<close> for a finite \<open>x > 0\<close> and a finite \<open>y \<noteq> 0\<close>;
  \<open>PInf\<close> is its overflow value. For a whole exponent the mathematical result is the
  rational \<open>m ^ y * 2 ^ (e * y)\<close>.
\<close>

definition c_pow_exact :: "int \<Rightarrow> int \<Rightarrow> int \<Rightarrow> pyfloat \<times> bool" where
  "c_pow_exact m e y =
     (if 0 \<le> y then round_rat (m ^ nat y) 1 (e * y)
      else round_rat 1 (m ^ nat (- y)) (e * y))"

definition c_pow :: "pyfloat \<Rightarrow> pyfloat \<Rightarrow> pyfloat" where
  "c_pow x y =
     (if feq x (Fin 1 0) then Fin 1 0
      else if float_is_integer y then
        (case (x, int_of_float y) of
           (Fin m e, Inr n) \<Rightarrow>
             (case c_pow_exact m e n of
                (PInf, exact) \<Rightarrow> PInf
              | (r, exact) \<Rightarrow> if exact then r else libm_approx x y)
         | other \<Rightarrow> libm_approx x y)
      else libm_approx x y)"

datatype binop = Add | Sub | Mul | Div | Pow

fun is_complex :: "pyexn + pyval \<Rightarrow> bool" where
  "is_complex (Inr (PyComplex re im)) = True"
| "is_complex r = False"

definition complex_arith_spec :: "(binop \<Rightarrow> pyval \<Rightarrow> pyval \<Rightarrow> pyexn + pyval) \<Rightarrow> bool" where
  "complex_arith_spec f =
     ((\<forall>a b. is_complex (f Add a b) \<and> is_complex (f Sub a b) \<and> is_complex (f Mul a b))
      \<and> (\<forall>a b. is_complex (f Div a b) \<or> f Div a b = Inl ZeroDivisionError)
      \<and> (\<forall>a b. is_complex (f Pow a b) \<or> f Pow a b = Inl ZeroDivisionError
                 \<or> f Pow a b = Inl OverflowError)
      \<and> (\<forall>m e y. m < 0 \<and> is_finite y \<and> \<not> float_is_integer y \<longrightarrow>
            (if c_pow (Fin (- m) e) y = PInf
             then f Pow (PyFloat (Fin m e)) (PyFloat y) = Inl OverflowError
             else is_complex (f Pow (PyFloat (Fin m e)) (PyFloat y)))))"

definition complex_arith :: "binop \<Rightarrow> pyval \<Rightarrow> pyval \<Rightarrow> pyexn + pyval" where
  "complex_arith = (SOME f. complex_arith_spec f)"

subsection \<open>The operators of the interpreter\<close>

text \<open>
  \<open>float.__pow__\<close>, in the order of its special cases: a zero exponent, a NaN, an infinite
  exponent, an infinite base, a zero base (ZeroDivisionError for a negative exponent), a
  negative base (complex for a fractional exponent, otherwise the power of the absolute
  value, negated for an odd exponent), the base one, and then \<open>pow\<close> of the C library,
  whose overflow is an OverflowError.
\<close>

definition float_pow :: "pyfloat \<Rightarrow> pyfloat \<Rightarrow> pyexn + pyval" where
  "float_pow iv iw =
     (if feq iw (Fin 0 0) then Inr (PyFloat (Fin 1 0))
      else if iv = NaN then Inr (PyFloat iv)
      else if iw = NaN then Inr (PyFloat (if feq iv (Fin 1 0) then Fin 1 0 else iw))
      else if \<not> is_finite iw then
        (if feq (fabs iv) (Fin 1 0) then Inr (PyFloat (Fin 1 0))
         else if fless (Fin 0 0) iw = fless (Fin 1 0) (fabs iv) then Inr (PyFloat PInf)
         else Inr (PyFloat (Fin 0 0)))
      else if \<not> is_finite iv then
        (if fless (Fin 0 0) iw then Inr (PyFloat (if is_odd_integer iw then iv else PInf))
         else Inr (PyFloat (Fin 0 0)))
      else if feq iv (Fin 0 0) then
        (if fless iw (Fin 0 0) then Inl ZeroDivisionError else Inr (PyFloat (Fin 0 0)))
      else if fless iv (Fin 0 0) \<and> \<not> float_is_integer iw then
        complex_arith Pow (PyFloat iv) (PyFloat iw)
      else if feq (fabs iv) (Fin 1 0) then
        Inr (PyFloat (if fless iv (Fin 0 0) \<and> is_odd_integer iw then Fin (- 1) 0 else Fin 1 0))
      else
        (case c_pow (fabs iv) iw of
           PInf \<Rightarrow> Inl OverflowError
         | ix \<Rightarrow> Inr (PyFloat (if fless iv (Fin 0 0) \<and> is_odd_integer iw then fneg ix else ix))))"

text \<open>An operator on two numbers of which neither is complex and not both are \<open>int\<close>: both become floats.\<close>

definition float_binop ::
  "(pyfloat \<Rightarrow> pyfloat \<Rightarrow> pyexn + pyval) \<Rightarrow> pyval \<Rightarrow> pyval \<Rightarrow> pyexn + pyval" where
  "float_binop f a b =
     (case to_float a of
        Inl err \<Rightarrow> Inl err
      | Inr x \<Rightarrow> (case to_float b of Inl err \<Rightarrow> Inl err | Inr y \<Rightarrow> f x y))"

fun py_add :: "pyval \<Rightarrow> pyval \<Rightarrow> pyexn + pyval" where
  "py_add (PyInt x) (PyInt y) = Inr (PyInt (x + y))"
| "py_add (PyComplex re im) b = complex_arith Add (PyComplex re im) b"
| "py_add a (PyComplex re im) = complex_arith Add a (PyComplex re im)"
| "py_add a b = float_binop (\<lambda>x y. Inr (PyFloat (fadd x y))) a b"

fun py_sub :: "pyval \<Rightarrow> pyval \<Rightarrow> pyexn + pyval" where
  "py_sub (PyInt x) (PyInt y) = Inr (PyInt (x - y))"
| "py_sub (PyComplex re im) b = complex_arith Sub (PyComplex re im) b"
| "py_sub a (PyComplex re im) = complex_arith Sub a (PyComplex re im)"
| "py_sub a b = float_binop (\<lambda>x y. Inr (PyFloat (fsub x y))) a b"

fun py_mul :: "pyval \<Rightarrow> pyval \<Rightarrow> pyexn + pyval" where
  "py_mul (PyInt x) (PyInt y) = Inr (PyInt (x * y))"
| "py_mul (PyComplex re im) b = complex_arith Mul (PyComplex re im) b"
| "py_mul a (PyComplex re im) = complex_arith Mul a (PyComplex re im)"
| "py_mul a b = float_binop (\<lambda>x y. Inr (PyFloat (fmul x y))) a b"

text \<open>
  True division. \<open>int / int\<close> is the correctly rounded quotient, an OverflowError when it
  is too large for a float; a zero divisor raises ZeroDivisionError.
\<close>

fun py_truediv :: "pyval \<Rightarrow> pyval \<Rightarrow> pyexn + pyval" where
  "py_truediv (PyInt x) (PyInt y) =
     (if y = 0 then Inl ZeroDivisionError
      else (case (if 0 < y then round64 x y 0 else round64 (- x) (- y) 0) of
              Fin m e \<Rightarrow> Inr (PyFloat (Fin m e))
            | r \<Rightarrow> Inl OverflowError))"
| "py_truediv (PyComplex re im) b = complex_arith Div (PyComplex re im) b"
| "py_truediv a (PyComplex re im) = complex_arith Div a (PyComplex re im)"
| "py_truediv a b =
     float_binop (\<lambda>x y. if feq y (Fin 0 0) then Inl ZeroDivisionError
                         else Inr (PyFloat (fdiv x y))) a b"

text \<open>\<open>**\<close>: exact on two \<open>int\<close>s with a non-negative exponent, otherwise the float power.\<close>

fun py_pow :: "pyval \<Rightarrow> pyval \<Rightarrow> pyexn + pyval" where
  "py_pow (PyInt x) (PyInt y) =
     (if 0 \<le> y then Inr (PyInt (x ^ nat y))
      else float_binop float_pow (PyInt x) (PyInt y))"
| "py_pow (PyComplex re im) b = complex_arith Pow (PyComplex re im) b"
| "py_pow a (PyComplex re im) = complex_arith Pow a (PyComplex re im)"
| "py_pow a b = float_binop float_pow a b"

text \<open>The comparisons \<open>v == 0\<close> and \<open>v < 0\<close> (the latter on \<open>int\<close> and \<open>float\<close>).\<close>

fun py_eq_zero :: "pyval \<Rightarrow> bool" where
  "py_eq_zero (PyInt n) = (n = 0)"
| "py_eq_zero (PyFloat x) = feq x (Fin 0 0)"
| "py_eq_zero (PyComplex re im) = (feq re (Fin 0 0) \<and> feq im (Fin 0 0))"

fun py_lt_zero :: "pyval \<Rightarrow> bool" where
  "py_lt_zero (PyInt n) = (n < 0)"
| "py_lt_zero (PyFloat x) = fless x (Fin 0 0)"
| "py_lt_zero (PyComplex re im) = False"

text \<open>\<open>int(v)\<close>.\<close>

fun py_int :: "pyval \<Rightarrow> pyexn + int" where
  "py_int (PyInt n) = Inr n"
| "py_int (PyFloat x) = int_of_float x"
| "py_int (PyComplex re im) = Inl TypeError"

text \<open>
  \<open>math.factorial\<close> on an \<open>int\<close>: ValueError below zero, OverflowError above the largest C
  \<open>long\<close> (64 bits), and the factorial otherwise.
\<close>

definition math_factorial :: "int \<Rightarrow> pyexn + pyval" where
  "math_factorial n =
     (if n < 0 then Inl ValueError
      else if 2 ^ 63 - 1 < n then Inl OverflowError
      else Inr (PyInt (fact (nat n))))"


section \<open>The parser\<close>

definition allowed_digits :: "str set" where
  "allowed_digits = {py ''1'', py ''2'', py ''3'', py ''4'', py ''5'', py ''6''}"

text \<open>
  \<open>ParsingError(char, msg)\<close>: \<open>char\<close> is a string of at most one character, and the
  message is one of the texts of the program, named here by what it reports (in the
  order of the program: the five of \<open>parse_primary\<close> and its caller, the division, the
  power with the exception it caught, the two of the factorial, and the two of \<open>parse\<close>).
\<close>

datatype message =
    MissingClosingParen
  | DisallowedDigit
  | DuplicateDigit
  | UnexpectedEnd
  | DisallowedCharacter
  | DivisionByZero
  | InvalidPower pyexn
  | InvalidFactorial
  | FactorialError pyexn
  | EmptyInput
  | TrailingCharacters

text \<open>
  A call ends with a value, with a \<open>ParsingError\<close>, or with an exception of the interpreter
  that the program does not catch. \<open>OutOfFuel\<close> belongs to the model only: the recursion of
  the parser is bounded by a counter, and \<open>parse\<close> starts with one that never runs out.
\<close>

datatype failure = ParsingError str message | Uncaught pyexn | OutOfFuel

record parser =
  self_text :: str
  self_i :: nat
  self_len :: nat
  self_used_digits :: "str set"

definition Parser :: "str \<Rightarrow> parser" where
  "Parser text =
     \<lparr>self_text = text, self_i = 0, self_len = length text, self_used_digits = {}\<rparr>"

definition peek :: "parser \<Rightarrow> str" where
  "peek p = (if self_i p < self_len p then [self_text p ! self_i p] else [])"

definition next_char :: "parser \<Rightarrow> str \<times> parser" where
  "next_char p = (peek p, p\<lparr>self_i := self_i p + 1\<rparr>)"

function skip_spaces :: "parser \<Rightarrow> parser" where
  "skip_spaces p =
     (if isspace (peek p) \<or> peek p = py ''`'' then skip_spaces (snd (next_char p)) else p)"
  by pat_completeness auto
termination
  by (relation "measure (\<lambda>p. self_len p - self_i p)")
     (auto simp: next_char_def peek_def isspace_def py_def split: if_splits)

declare skip_spaces.simps [simp del]

text \<open>\<open>float(int(digit))\<close>, reached for the allowed digits only.\<close>

definition digit_value :: "str \<Rightarrow> pyval" where
  "digit_value digit = PyFloat (round64 (int (hd digit) - 48) 1 0)"

type_synonym 'a outcome = "(failure + 'a) \<times> parser"

text \<open>
  The five methods of the grammar, with the loops of \<open>parse_expression\<close>, \<open>parse_term\<close> and
  \<open>parse_factor\<close> as functions of the value so far. Each returns its result together with
  the parser as the call left it, also when it raises.
\<close>

fun parse_expression :: "nat \<Rightarrow> parser \<Rightarrow> pyval outcome"
  and expression_loop :: "nat \<Rightarrow> pyval \<Rightarrow> parser \<Rightarrow> pyval outcome"
  and parse_term :: "nat \<Rightarrow> parser \<Rightarrow> pyval outcome"
  and term_loop :: "nat \<Rightarrow> pyval \<Rightarrow> parser \<Rightarrow> pyval outcome"
  and parse_power :: "nat \<Rightarrow> parser \<Rightarrow> pyval outcome"
  and parse_factor :: "nat \<Rightarrow> parser \<Rightarrow> pyval outcome"
  and factor_loop :: "nat \<Rightarrow> pyval \<Rightarrow> parser \<Rightarrow> pyval outcome"
  and parse_primary :: "nat \<Rightarrow> parser \<Rightarrow> pyval outcome"
where
  "parse_expression 0 p = (Inl OutOfFuel, p)"
| "parse_expression (Suc n) p =
     (case parse_term n p of
        (Inl err, p1) \<Rightarrow> (Inl err, p1)
      | (Inr val, p1) \<Rightarrow> expression_loop n val p1)"
| "expression_loop 0 val p = (Inl OutOfFuel, p)"
| "expression_loop (Suc n) val p =
     (let p1 = skip_spaces p; ch = peek p1
      in if ch = py ''+'' \<or> ch = py ''-'' then
           (case next_char p1 of (op, p2) \<Rightarrow>
              (case parse_term n p2 of
                 (Inl err, p3) \<Rightarrow> (Inl err, p3)
               | (Inr rhs, p3) \<Rightarrow>
                   (case (if op = py ''+'' then py_add val rhs else py_sub val rhs) of
                      Inl exn \<Rightarrow> (Inl (Uncaught exn), p3)
                    | Inr v \<Rightarrow> expression_loop n v p3)))
         else (Inr val, p1))"
| "parse_term 0 p = (Inl OutOfFuel, p)"
| "parse_term (Suc n) p =
     (case parse_power n p of
        (Inl err, p1) \<Rightarrow> (Inl err, p1)
      | (Inr val, p1) \<Rightarrow> term_loop n val p1)"
| "term_loop 0 val p = (Inl OutOfFuel, p)"
| "term_loop (Suc n) val p =
     (let p1 = skip_spaces p; ch = peek p1
      in if ch = py ''*'' \<or> ch = py ''/'' then
           (case next_char p1 of (op, p2) \<Rightarrow>
              (case parse_power n p2 of
                 (Inl err, p3) \<Rightarrow> (Inl err, p3)
               | (Inr rhs, p3) \<Rightarrow>
                   if op = py ''*'' then
                     (case py_mul val rhs of
                        Inl exn \<Rightarrow> (Inl (Uncaught exn), p3)
                      | Inr v \<Rightarrow> term_loop n v p3)
                   else if py_eq_zero rhs then
                     (Inl (ParsingError (py ''/'') DivisionByZero), p3)
                   else
                     (case py_truediv val rhs of
                        Inl exn \<Rightarrow> (Inl (Uncaught exn), p3)
                      | Inr v \<Rightarrow> term_loop n v p3)))
         else (Inr val, p1))"
| "parse_power 0 p = (Inl OutOfFuel, p)"
| "parse_power (Suc n) p =
     (case parse_factor n p of
        (Inl err, p1) \<Rightarrow> (Inl err, p1)
      | (Inr val, p1) \<Rightarrow>
          (let p2 = skip_spaces p1
           in if peek p2 = py ''^'' then
                (case parse_power n (snd (next_char p2)) of
                   (Inl err, p3) \<Rightarrow> (Inl err, p3)
                 | (Inr rhs, p3) \<Rightarrow>
                     (case py_pow val rhs of
                        Inl exn \<Rightarrow> (Inl (ParsingError (py ''^'') (InvalidPower exn)), p3)
                      | Inr v \<Rightarrow> (Inr v, p3)))
              else (Inr val, p2)))"
| "parse_factor 0 p = (Inl OutOfFuel, p)"
| "parse_factor (Suc n) p =
     (case parse_primary n p of
        (Inl err, p1) \<Rightarrow> (Inl err, p1)
      | (Inr val, p1) \<Rightarrow> factor_loop n val (skip_spaces p1))"
| "factor_loop 0 val p = (Inl OutOfFuel, p)"
| "factor_loop (Suc n) val p =
     (if peek p = py ''!'' then
        (let p1 = snd (next_char p)
         in case to_float val of
              Inl exn \<Rightarrow> (Inl (Uncaught exn), p1)
            | Inr x \<Rightarrow>
                if \<not> float_is_integer x \<or> py_lt_zero val then
                  (Inl (ParsingError (py ''!'') InvalidFactorial), p1)
                else
                  (case py_int val of
                     Inl exn \<Rightarrow> (Inl (Uncaught exn), p1)
                   | Inr k \<Rightarrow>
                       (case math_factorial k of
                          Inl exn \<Rightarrow> (Inl (ParsingError (py ''!'') (FactorialError exn)), p1)
                        | Inr v \<Rightarrow> factor_loop n v (skip_spaces p1))))
      else (Inr val, p))"
| "parse_primary 0 p = (Inl OutOfFuel, p)"
| "parse_primary (Suc n) p =
     (let p1 = skip_spaces p; ch = peek p1
      in if ch = py ''('' then
           (case parse_expression n (snd (next_char p1)) of
              (Inl err, p2) \<Rightarrow> (Inl err, p2)
            | (Inr val, p2) \<Rightarrow>
                (let p3 = skip_spaces p2
                 in if peek p3 \<noteq> py '')'' then
                      (Inl (ParsingError (py '')'') MissingClosingParen), p3)
                    else (Inr val, snd (next_char p3))))
         else if isdigit ch then
           (case next_char p1 of (digit, p2) \<Rightarrow>
              if digit \<notin> allowed_digits then
                (Inl (ParsingError digit DisallowedDigit), p2)
              else if digit \<in> self_used_digits p2 then
                (Inl (ParsingError digit DuplicateDigit), p2)
              else
                (Inr (digit_value digit),
                 p2\<lparr>self_used_digits := insert digit (self_used_digits p2)\<rparr>))
         else if ch = [] then (Inl (ParsingError [] UnexpectedEnd), p1)
         else (Inl (ParsingError ch DisallowedCharacter), p1))"

text \<open>
  \<open>parse\<close>. The counter \<open>5 * len + 5\<close> is enough for every input (lemma \<open>parse_run_fuel\<close>
  below); the stack of the interpreter is taken to be as deep as the input needs.
  \<open>parse_run\<close> also returns the parser as \<open>parse\<close> left it.
\<close>

definition parse_run :: "str \<Rightarrow> pyval outcome" where
  "parse_run text =
     (let parser = Parser text; p1 = skip_spaces parser
      in if self_len p1 \<le> self_i p1 then (Inl (ParsingError [] EmptyInput), p1)
         else
           (case parse_expression (5 * self_len p1 + 5) p1 of
              (Inl err, p2) \<Rightarrow> (Inl err, p2)
            | (Inr val, p2) \<Rightarrow>
                (let p3 = skip_spaces p2
                 in if self_i p3 \<noteq> self_len p3 then
                      (Inl (ParsingError (peek p3) TrailingCharacters), p3)
                    else
                      (case val of
                         PyFloat x \<Rightarrow>
                           (if float_is_integer x then
                              (case int_of_float x of
                                 Inl exn \<Rightarrow> (Inl (Uncaught exn), p3)
                               | Inr k \<Rightarrow> (Inr (PyInt k), p3))
                            else (Inr val, p3))
                       | other \<Rightarrow> (Inr val, p3)))))"

definition parse :: "str \<Rightarrow> failure + pyval" where
  "parse text = fst (parse_run text)"


section \<open>Predicates of the proofs\<close>

definition advances :: "parser \<Rightarrow> parser \<Rightarrow> bool" where
  "advances p p' =
     (self_text p' = self_text p \<and> self_len p' = self_len p \<and> self_i p \<le> self_i p'
      \<and> self_i p' \<le> max (self_i p) (self_len p))"

definition consumed_digits :: "parser \<Rightarrow> str" where
  "consumed_digits p = filter unicode_isdigit (take (self_i p) (self_text p))"

definition ledger_ok :: "parser \<Rightarrow> bool" where
  "ledger_ok p =
     (self_len p = length (self_text p) \<and> self_i p \<le> self_len p
      \<and> self_used_digits p = (\<lambda>c. [c]) ` set (consumed_digits p)
      \<and> distinct (consumed_digits p))"

definition welldigits :: "str \<Rightarrow> bool" where
  "welldigits t =
     (distinct (filter unicode_isdigit t)
      \<and> list_all (\<lambda>c. unicode_isdigit c \<longrightarrow> [c] \<in> allowed_digits) t)"

fun is_digit_error :: "failure + pyval \<Rightarrow> bool" where
  "is_digit_error (Inl (ParsingError ch DuplicateDigit)) = True"
| "is_digit_error (Inl (ParsingError ch DisallowedDigit)) = True"
| "is_digit_error r = False"

definition well_formed :: "parser \<Rightarrow> bool" where
  "well_formed p = (self_len p = length (self_text p) \<and> self_i p \<le> self_len p)"

text \<open>The parser of the text with one more character at its end, at the same position.\<close>

definition lengthen :: "nat \<Rightarrow> parser \<Rightarrow> parser" where
  "lengthen d p = p\<lparr>self_text := self_text p @ [d], self_len := Suc (self_len p)\<rparr>"

section \<open>Running the parser on a given input\<close>

text \<open>
  With a counter given as a numeral, each function unfolds by the equation of its
  successor case.
\<close>

lemma parse_expression_unfold:
  "0 < n \<Longrightarrow> parse_expression n p =
     (case parse_term (n - 1) p of
        (Inl err, p1) \<Rightarrow> (Inl err, p1)
      | (Inr val, p1) \<Rightarrow> expression_loop (n - 1) val p1)"
  using parse_expression.simps(2) [of "n - 1"] by simp

lemma expression_loop_unfold:
  "0 < n \<Longrightarrow> expression_loop n val p =
     (let p1 = skip_spaces p; ch = peek p1
      in if ch = py ''+'' \<or> ch = py ''-'' then
           (case next_char p1 of (op, p2) \<Rightarrow>
              (case parse_term (n - 1) p2 of
                 (Inl err, p3) \<Rightarrow> (Inl err, p3)
               | (Inr rhs, p3) \<Rightarrow>
                   (case (if op = py ''+'' then py_add val rhs else py_sub val rhs) of
                      Inl exn \<Rightarrow> (Inl (Uncaught exn), p3)
                    | Inr v \<Rightarrow> expression_loop (n - 1) v p3)))
         else (Inr val, p1))"
  using expression_loop.simps(2) [of "n - 1"] by simp

lemma parse_term_unfold:
  "0 < n \<Longrightarrow> parse_term n p =
     (case parse_power (n - 1) p of
        (Inl err, p1) \<Rightarrow> (Inl err, p1)
      | (Inr val, p1) \<Rightarrow> term_loop (n - 1) val p1)"
  using parse_term.simps(2) [of "n - 1"] by simp

lemma term_loop_unfold:
  "0 < n \<Longrightarrow> term_loop n val p =
     (let p1 = skip_spaces p; ch = peek p1
      in if ch = py ''*'' \<or> ch = py ''/'' then
           (case next_char p1 of (op, p2) \<Rightarrow>
              (case parse_power (n - 1) p2 of
                 (Inl err, p3) \<Rightarrow> (Inl err, p3)
               | (Inr rhs, p3) \<Rightarrow>
                   if op = py ''*'' then
                     (case py_mul val rhs of
                        Inl exn \<Rightarrow> (Inl (Uncaught exn), p3)
                      | Inr v \<Rightarrow> term_loop (n - 1) v p3)
                   else if py_eq_zero rhs then
                     (Inl (ParsingError (py ''/'') DivisionByZero), p3)
                   else
                     (case py_truediv val rhs of
                        Inl exn \<Rightarrow> (Inl (Uncaught exn), p3)
                      | Inr v \<Rightarrow> term_loop (n - 1) v p3)))
         else (Inr val, p1))"
  using term_loop.simps(2) [of "n - 1"] by simp

lemma parse_power_unfold:
  "0 < n \<Longrightarrow> parse_power n p =
     (case parse_factor (n - 1) p of
        (Inl err, p1) \<Rightarrow> (Inl err, p1)
      | (Inr val, p1) \<Rightarrow>
          (let p2 = skip_spaces p1
           in if peek p2 = py ''^'' then
                (case parse_power (n - 1) (snd (next_char p2)) of
                   (Inl err, p3) \<Rightarrow> (Inl err, p3)
                 | (Inr rhs, p3) \<Rightarrow>
                     (case py_pow val rhs of
                        Inl exn \<Rightarrow> (Inl (ParsingError (py ''^'') (InvalidPower exn)), p3)
                      | Inr v \<Rightarrow> (Inr v, p3)))
              else (Inr val, p2)))"
  using parse_power.simps(2) [of "n - 1"] by simp

lemma parse_factor_unfold:
  "0 < n \<Longrightarrow> parse_factor n p =
     (case parse_primary (n - 1) p of
        (Inl err, p1) \<Rightarrow> (Inl err, p1)
      | (Inr val, p1) \<Rightarrow> factor_loop (n - 1) val (skip_spaces p1))"
  using parse_factor.simps(2) [of "n - 1"] by simp

lemma factor_loop_unfold:
  "0 < n \<Longrightarrow> factor_loop n val p =
     (if peek p = py ''!'' then
        (let p1 = snd (next_char p)
         in case to_float val of
              Inl exn \<Rightarrow> (Inl (Uncaught exn), p1)
            | Inr x \<Rightarrow>
                if \<not> float_is_integer x \<or> py_lt_zero val then
                  (Inl (ParsingError (py ''!'') InvalidFactorial), p1)
                else
                  (case py_int val of
                     Inl exn \<Rightarrow> (Inl (Uncaught exn), p1)
                   | Inr k \<Rightarrow>
                       (case math_factorial k of
                          Inl exn \<Rightarrow> (Inl (ParsingError (py ''!'') (FactorialError exn)), p1)
                        | Inr v \<Rightarrow> factor_loop (n - 1) v (skip_spaces p1))))
      else (Inr val, p))"
  using factor_loop.simps(2) [of "n - 1"] by simp

lemma parse_primary_unfold:
  "0 < n \<Longrightarrow> parse_primary n p =
     (let p1 = skip_spaces p; ch = peek p1
      in if ch = py ''('' then
           (case parse_expression (n - 1) (snd (next_char p1)) of
              (Inl err, p2) \<Rightarrow> (Inl err, p2)
            | (Inr val, p2) \<Rightarrow>
                (let p3 = skip_spaces p2
                 in if peek p3 \<noteq> py '')'' then
                      (Inl (ParsingError (py '')'') MissingClosingParen), p3)
                    else (Inr val, snd (next_char p3))))
         else if isdigit ch then
           (case next_char p1 of (digit, p2) \<Rightarrow>
              if digit \<notin> allowed_digits then
                (Inl (ParsingError digit DisallowedDigit), p2)
              else if digit \<in> self_used_digits p2 then
                (Inl (ParsingError digit DuplicateDigit), p2)
              else
                (Inr (digit_value digit),
                 p2\<lparr>self_used_digits := insert digit (self_used_digits p2)\<rparr>))
         else if ch = [] then (Inl (ParsingError [] UnexpectedEnd), p1)
         else (Inl (ParsingError ch DisallowedCharacter), p1))"
  using parse_primary.simps(2) [of "n - 1"] by simp

lemma Let_parser:
  "Let \<lparr>self_text = t, self_i = k, self_len = l, self_used_digits = u\<rparr> f =
     f \<lparr>self_text = t, self_i = k, self_len = l, self_used_digits = u\<rparr>"
  by simp

lemma Let_str:
  "Let ([] :: str) g = g []"
  "Let ((c :: nat) # cs) g = g (c # cs)"
  by simp_all

lemmas float_eval =
  round64_def round_rat_def round_ratio_def floor_log2_ratio_def bit_length.simps
  norm_float.simps scaled_def fin_diff_def fsub_def is_odd_integer_def float_of_int_def
  c_pow_def c_pow_exact_def float_binop_def math_factorial_def fact_numeral

lemmas parser_eval =
  parse_def parse_run_def Parser_def peek_def next_char_def skip_spaces.simps
  isspace_def isdigit_def unicode_isspace_def unicode_isdigit_def py_def
  allowed_digits_def digit_value_def Let_parser Let_str
  parse_expression_unfold expression_loop_unfold parse_term_unfold term_loop_unfold
  parse_power_unfold parse_factor_unfold factor_loop_unfold parse_primary_unfold

lemmas eval_cong = prod.case_cong_weak sum.case_cong_weak let_weak_cong

section \<open>The cursor, the counter and the ledger\<close>

lemma advances_refl: "advances p p"
  by (simp add: advances_def)

lemma advances_trans: "advances p q \<Longrightarrow> advances q r \<Longrightarrow> advances p r"
  by (auto simp: advances_def)

lemma peek_cases:
  "peek p = [] \<and> self_len p \<le> self_i p
   \<or> peek p = [self_text p ! self_i p] \<and> self_i p < self_len p"
  by (simp add: peek_def)

lemma peek_Cons: "peek p = c # cs \<Longrightarrow> self_i p < self_len p \<and> c = self_text p ! self_i p \<and> cs = []"
  by (simp add: peek_def split: if_splits)

lemma isspace_peek: "isspace (peek p) \<Longrightarrow> self_i p < self_len p"
  by (simp add: peek_def isspace_def split: if_splits)

lemma skip_spaces_advances: "advances p (skip_spaces p)"
proof (induction p rule: skip_spaces.induct)
  case (1 p)
  show ?case
  proof (cases "isspace (peek p) \<or> peek p = py ''`''")
    case True
    then have lt: "self_i p < self_len p"
      by (auto simp: py_def dest: isspace_peek peek_Cons)
    have "advances p (snd (next_char p))"
      using lt by (simp add: advances_def next_char_def)
    moreover have "advances (snd (next_char p)) (skip_spaces (snd (next_char p)))"
      using "1.IH" True by simp
    ultimately show ?thesis
      using True by (subst skip_spaces.simps) (auto intro: advances_trans)
  next
    case False
    then show ?thesis by (subst skip_spaces.simps) (simp add: advances_refl)
  qed
qed

lemma skip_spaces_used: "self_used_digits (skip_spaces p) = self_used_digits p"
proof (induction p rule: skip_spaces.induct)
  case (1 p)
  show ?case
    using "1.IH" by (subst skip_spaces.simps) (simp add: next_char_def)
qed

lemma next_char_advances:
  "peek p = c # cs \<Longrightarrow> advances p (snd (next_char p)) \<and> self_i p < self_i (snd (next_char p))"
  by (auto simp: advances_def next_char_def dest: peek_Cons)

lemma py_single [simp]:
  "py ''+'' = [43]" "py ''-'' = [45]" "py ''*'' = [42]" "py ''/'' = [47]" "py ''^'' = [94]"
  "py ''!'' = [33]" "py ''('' = [40]" "py '')'' = [41]" "py ''`'' = [96]"
  by (simp_all add: py_def)

lemma parse_expression_Suc_cases:
  assumes "parse_expression (Suc n) p = (r, p')"
  obtains (fail) e where "parse_term n p = (Inl e, p')" "r = Inl e"
  | (loop) val p1 where "parse_term n p = (Inr val, p1)" "expression_loop n val p1 = (r, p')"
  using assms by (auto split: prod.splits sum.splits)

lemma expression_loop_Suc_cases:
  assumes "expression_loop (Suc n) val p = (r, p')"
  obtains (stop) "peek (skip_spaces p) \<noteq> py ''+''" "peek (skip_spaces p) \<noteq> py ''-''"
      "r = Inr val" "p' = skip_spaces p"
  | (fail) c e where "peek (skip_spaces p) = [c]"
      "parse_term n (snd (next_char (skip_spaces p))) = (Inl e, p')" "r = Inl e"
      "c = 43 \<or> c = 45"
  | (exn) c rhs x where "peek (skip_spaces p) = [c]"
      "parse_term n (snd (next_char (skip_spaces p))) = (Inr rhs, p')" "r = Inl (Uncaught x)"
      "c = 43 \<or> c = 45"
  | (loop) c rhs p3 v where "peek (skip_spaces p) = [c]"
      "parse_term n (snd (next_char (skip_spaces p))) = (Inr rhs, p3)"
      "expression_loop n v p3 = (r, p')" "c = 43 \<or> c = 45"
      "(if c = 43 then py_add val rhs else py_sub val rhs) = Inr v"
  using assms
  by (auto simp: Let_def next_char_def split: prod.splits sum.splits if_splits)

lemma parse_term_Suc_cases:
  assumes "parse_term (Suc n) p = (r, p')"
  obtains (fail) e where "parse_power n p = (Inl e, p')" "r = Inl e"
  | (loop) val p1 where "parse_power n p = (Inr val, p1)" "term_loop n val p1 = (r, p')"
  using assms by (auto split: prod.splits sum.splits)

lemma term_loop_Suc_cases:
  assumes "term_loop (Suc n) val p = (r, p')"
  obtains (stop) "peek (skip_spaces p) \<noteq> py ''*''" "peek (skip_spaces p) \<noteq> py ''/''"
      "r = Inr val" "p' = skip_spaces p"
  | (fail) c e where "peek (skip_spaces p) = [c]"
      "parse_power n (snd (next_char (skip_spaces p))) = (Inl e, p')" "r = Inl e"
      "c = 42 \<or> c = 47"
  | (exn) c rhs x where "peek (skip_spaces p) = [c]"
      "parse_power n (snd (next_char (skip_spaces p))) = (Inr rhs, p')" "r = Inl (Uncaught x)"
      "c = 42 \<or> c = 47"
  | (zero) rhs where "peek (skip_spaces p) = py ''/''"
      "parse_power n (snd (next_char (skip_spaces p))) = (Inr rhs, p')" "py_eq_zero rhs"
      "r = Inl (ParsingError (py ''/'') DivisionByZero)"
  | (loop) c rhs p3 v where "peek (skip_spaces p) = [c]"
      "parse_power n (snd (next_char (skip_spaces p))) = (Inr rhs, p3)"
      "term_loop n v p3 = (r, p')" "c = 42 \<or> c = 47"
      "if c = 42 then py_mul val rhs = Inr v
       else \<not> py_eq_zero rhs \<and> py_truediv val rhs = Inr v"
  using assms
  by (auto simp: Let_def next_char_def split: prod.splits sum.splits if_splits)

lemma parse_power_Suc_cases:
  assumes "parse_power (Suc n) p = (r, p')"
  obtains (fail) e where "parse_factor n p = (Inl e, p')" "r = Inl e"
  | (single) val p1 where "parse_factor n p = (Inr val, p1)" "peek (skip_spaces p1) \<noteq> py ''^''"
      "r = Inr val" "p' = skip_spaces p1"
  | (rhs_fail) val p1 e where "parse_factor n p = (Inr val, p1)" "peek (skip_spaces p1) = py ''^''"
      "parse_power n (snd (next_char (skip_spaces p1))) = (Inl e, p')" "r = Inl e"
  | (invalid) val p1 rhs x where "parse_factor n p = (Inr val, p1)"
      "peek (skip_spaces p1) = py ''^''"
      "parse_power n (snd (next_char (skip_spaces p1))) = (Inr rhs, p')"
      "py_pow val rhs = Inl x" "r = Inl (ParsingError (py ''^'') (InvalidPower x))"
  | (power) val p1 rhs v where "parse_factor n p = (Inr val, p1)"
      "peek (skip_spaces p1) = py ''^''"
      "parse_power n (snd (next_char (skip_spaces p1))) = (Inr rhs, p')"
      "py_pow val rhs = Inr v" "r = Inr v"
  using assms
  by (auto simp: Let_def split: prod.splits sum.splits if_splits)

lemma parse_factor_Suc_cases:
  assumes "parse_factor (Suc n) p = (r, p')"
  obtains (fail) e where "parse_primary n p = (Inl e, p')" "r = Inl e"
  | (loop) val p1 where "parse_primary n p = (Inr val, p1)"
      "factor_loop n val (skip_spaces p1) = (r, p')"
  using assms by (auto split: prod.splits sum.splits)

lemma factor_loop_Suc_cases:
  assumes "factor_loop (Suc n) val p = (r, p')"
  obtains (stop) "peek p \<noteq> py ''!''" "r = Inr val" "p' = p"
  | (exn) x where "peek p = py ''!''" "r = Inl (Uncaught x)" "p' = snd (next_char p)"
  | (invalid) "peek p = py ''!''" "r = Inl (ParsingError (py ''!'') InvalidFactorial)"
      "p' = snd (next_char p)"
  | (error) x where "peek p = py ''!''" "r = Inl (ParsingError (py ''!'') (FactorialError x))"
      "p' = snd (next_char p)"
  | (loop) v x k where "peek p = py ''!''"
      "factor_loop n v (skip_spaces (snd (next_char p))) = (r, p')"
      "to_float val = Inr x" "float_is_integer x" "\<not> py_lt_zero val"
      "py_int val = Inr k" "math_factorial k = Inr v"
  using assms
  by (auto simp: Let_def split: prod.splits sum.splits if_splits)

lemma parse_primary_Suc_cases:
  assumes "parse_primary (Suc n) p = (r, p')"
  obtains (paren_fail) e where "peek (skip_spaces p) = py ''(''"
      "parse_expression n (snd (next_char (skip_spaces p))) = (Inl e, p')" "r = Inl e"
  | (paren_missing) val p2 where "peek (skip_spaces p) = py ''(''"
      "parse_expression n (snd (next_char (skip_spaces p))) = (Inr val, p2)"
      "peek (skip_spaces p2) \<noteq> py '')''"
      "r = Inl (ParsingError (py '')'') MissingClosingParen)" "p' = skip_spaces p2"
  | (paren) val p2 where "peek (skip_spaces p) = py ''(''"
      "parse_expression n (snd (next_char (skip_spaces p))) = (Inr val, p2)"
      "peek (skip_spaces p2) = py '')''" "r = Inr val" "p' = snd (next_char (skip_spaces p2))"
  | (disallowed) "isdigit (peek (skip_spaces p))" "peek (skip_spaces p) \<notin> allowed_digits"
      "r = Inl (ParsingError (peek (skip_spaces p)) DisallowedDigit)"
      "p' = snd (next_char (skip_spaces p))"
  | (duplicate) "isdigit (peek (skip_spaces p))" "peek (skip_spaces p) \<in> allowed_digits"
      "peek (skip_spaces p) \<in> self_used_digits p"
      "r = Inl (ParsingError (peek (skip_spaces p)) DuplicateDigit)"
      "p' = snd (next_char (skip_spaces p))"
  | (digit) "isdigit (peek (skip_spaces p))" "peek (skip_spaces p) \<in> allowed_digits"
      "peek (skip_spaces p) \<notin> self_used_digits p"
      "r = Inr (digit_value (peek (skip_spaces p)))"
      "p' = (snd (next_char (skip_spaces p)))
              \<lparr>self_used_digits := insert (peek (skip_spaces p)) (self_used_digits p)\<rparr>"
  | (ended) "peek (skip_spaces p) = []" "r = Inl (ParsingError [] UnexpectedEnd)"
      "p' = skip_spaces p"
  | (other) "peek (skip_spaces p) \<noteq> []" "\<not> isdigit (peek (skip_spaces p))"
      "peek (skip_spaces p) \<noteq> py ''(''"
      "r = Inl (ParsingError (peek (skip_spaces p)) DisallowedCharacter)" "p' = skip_spaces p"
  using assms
  by (auto simp: Let_def next_char_def skip_spaces_used split: prod.splits sum.splits if_splits)

lemma cursor_all:
  "(\<forall>p r p'. parse_expression n p = (r, p') \<longrightarrow>
      advances p p' \<and> (\<forall>v. r = Inr v \<longrightarrow> self_i p < self_i p'))
   \<and> (\<forall>val p r p'. expression_loop n val p = (r, p') \<longrightarrow> advances p p')
   \<and> (\<forall>p r p'. parse_term n p = (r, p') \<longrightarrow>
      advances p p' \<and> (\<forall>v. r = Inr v \<longrightarrow> self_i p < self_i p'))
   \<and> (\<forall>val p r p'. term_loop n val p = (r, p') \<longrightarrow> advances p p')
   \<and> (\<forall>p r p'. parse_power n p = (r, p') \<longrightarrow>
      advances p p' \<and> (\<forall>v. r = Inr v \<longrightarrow> self_i p < self_i p'))
   \<and> (\<forall>p r p'. parse_factor n p = (r, p') \<longrightarrow>
      advances p p' \<and> (\<forall>v. r = Inr v \<longrightarrow> self_i p < self_i p'))
   \<and> (\<forall>val p r p'. factor_loop n val p = (r, p') \<longrightarrow> advances p p')
   \<and> (\<forall>p r p'. parse_primary n p = (r, p') \<longrightarrow>
      advances p p' \<and> (\<forall>v. r = Inr v \<longrightarrow> self_i p < self_i p'))"
proof (induction n)
  case 0
  show ?case by (simp add: advances_refl)
next
  case (Suc n)
  have expr: "advances p p' \<and> (\<forall>v. r = Inr v \<longrightarrow> self_i p < self_i p')"
    if "parse_expression n p = (r, p')" for p r p'
    using Suc [THEN conjunct1, rule_format, OF that] .
  have eloop: "advances p p'" if "expression_loop n val p = (r, p')" for val p r p'
    using Suc [THEN conjunct2, THEN conjunct1, rule_format, OF that] .
  have trm: "advances p p' \<and> (\<forall>v. r = Inr v \<longrightarrow> self_i p < self_i p')"
    if "parse_term n p = (r, p')" for p r p'
    using Suc [THEN conjunct2, THEN conjunct2, THEN conjunct1, rule_format, OF that] .
  have tloop: "advances p p'" if "term_loop n val p = (r, p')" for val p r p'
    using Suc [THEN conjunct2, THEN conjunct2, THEN conjunct2, THEN conjunct1, rule_format, OF that] .
  have pow: "advances p p' \<and> (\<forall>v. r = Inr v \<longrightarrow> self_i p < self_i p')"
    if "parse_power n p = (r, p')" for p r p'
    using Suc [THEN conjunct2, THEN conjunct2, THEN conjunct2, THEN conjunct2, THEN conjunct1, rule_format, OF that] .
  have fac: "advances p p' \<and> (\<forall>v. r = Inr v \<longrightarrow> self_i p < self_i p')"
    if "parse_factor n p = (r, p')" for p r p'
    using Suc [THEN conjunct2, THEN conjunct2, THEN conjunct2, THEN conjunct2, THEN conjunct2, THEN conjunct1, rule_format, OF that] .
  have floop: "advances p p'" if "factor_loop n val p = (r, p')" for val p r p'
    using Suc [THEN conjunct2, THEN conjunct2, THEN conjunct2, THEN conjunct2, THEN conjunct2, THEN conjunct2, THEN conjunct1, rule_format, OF that] .
  have prim: "advances p p' \<and> (\<forall>v. r = Inr v \<longrightarrow> self_i p < self_i p')"
    if "parse_primary n p = (r, p')" for p r p'
    using Suc [THEN conjunct2, THEN conjunct2, THEN conjunct2, THEN conjunct2, THEN conjunct2, THEN conjunct2, THEN conjunct2, rule_format, OF that] .
  have c1: "\<forall>p r p'. parse_expression (Suc n) p = (r, p') \<longrightarrow>
      advances p p' \<and> (\<forall>v. r = Inr v \<longrightarrow> self_i p < self_i p')"
  proof (intro allI impI)
    fix p r p'
    assume h: "parse_expression (Suc n) p = (r, p')"
    show "advances p p' \<and> (\<forall>v. r = Inr v \<longrightarrow> self_i p < self_i p')"
      using h
  proof (cases rule: parse_expression_Suc_cases)
    case (fail e)
    then show ?thesis using trm by auto
  next
    case (loop val p1)
    then show ?thesis
      using trm [of p "Inr val" p1] eloop [of val p1 r p'] by (auto simp: advances_def)
  qed
  qed
  have c2: "\<forall>val p r p'. expression_loop (Suc n) val p = (r, p') \<longrightarrow>
      advances p p'"
  proof (intro allI impI)
    fix val p r p'
    assume h: "expression_loop (Suc n) val p = (r, p')"
    show "advances p p'"
      using h
  proof (cases rule: expression_loop_Suc_cases)
    case stop
    then show ?thesis using skip_spaces_advances by simp
  next
    case (fail c e)
    then show ?thesis
      using skip_spaces_advances [of p] next_char_advances [of "skip_spaces p" c "[]"]
        trm [of "snd (next_char (skip_spaces p))" "Inl e" p']
      by (auto simp: advances_def)
  next
    case (exn c rhs x)
    then show ?thesis
      using skip_spaces_advances [of p] next_char_advances [of "skip_spaces p" c "[]"]
        trm [of "snd (next_char (skip_spaces p))" "Inr rhs" p']
      by (auto simp: advances_def)
  next
    case (loop c rhs p3 v)
    then show ?thesis
      using skip_spaces_advances [of p] next_char_advances [of "skip_spaces p" c "[]"]
        trm [of "snd (next_char (skip_spaces p))" "Inr rhs" p3] eloop [of v p3 r p']
      by (auto simp: advances_def)
  qed
  qed
  have c3: "\<forall>p r p'. parse_term (Suc n) p = (r, p') \<longrightarrow>
      advances p p' \<and> (\<forall>v. r = Inr v \<longrightarrow> self_i p < self_i p')"
  proof (intro allI impI)
    fix p r p'
    assume h: "parse_term (Suc n) p = (r, p')"
    show "advances p p' \<and> (\<forall>v. r = Inr v \<longrightarrow> self_i p < self_i p')"
      using h
  proof (cases rule: parse_term_Suc_cases)
    case (fail e)
    then show ?thesis using pow by auto
  next
    case (loop val p1)
    then show ?thesis
      using pow [of p "Inr val" p1] tloop [of val p1 r p'] by (auto simp: advances_def)
  qed
  qed
  have c4: "\<forall>val p r p'. term_loop (Suc n) val p = (r, p') \<longrightarrow>
      advances p p'"
  proof (intro allI impI)
    fix val p r p'
    assume h: "term_loop (Suc n) val p = (r, p')"
    show "advances p p'"
      using h
  proof (cases rule: term_loop_Suc_cases)
    case stop
    then show ?thesis using skip_spaces_advances by simp
  next
    case (fail c e)
    then show ?thesis
      using skip_spaces_advances [of p] next_char_advances [of "skip_spaces p" c "[]"]
        pow [of "snd (next_char (skip_spaces p))" "Inl e" p']
      by (auto simp: advances_def)
  next
    case (exn c rhs x)
    then show ?thesis
      using skip_spaces_advances [of p] next_char_advances [of "skip_spaces p" c "[]"]
        pow [of "snd (next_char (skip_spaces p))" "Inr rhs" p']
      by (auto simp: advances_def)
  next
    case (zero rhs)
    then show ?thesis
      using skip_spaces_advances [of p] next_char_advances [of "skip_spaces p" 47 "[]"]
        pow [of "snd (next_char (skip_spaces p))" "Inr rhs" p']
      by (auto simp: advances_def)
  next
    case (loop c rhs p3 v)
    then show ?thesis
      using skip_spaces_advances [of p] next_char_advances [of "skip_spaces p" c "[]"]
        pow [of "snd (next_char (skip_spaces p))" "Inr rhs" p3] tloop [of v p3 r p']
      by (auto simp: advances_def)
  qed
  qed
  have c5: "\<forall>p r p'. parse_power (Suc n) p = (r, p') \<longrightarrow>
      advances p p' \<and> (\<forall>v. r = Inr v \<longrightarrow> self_i p < self_i p')"
  proof (intro allI impI)
    fix p r p'
    assume h: "parse_power (Suc n) p = (r, p')"
    show "advances p p' \<and> (\<forall>v. r = Inr v \<longrightarrow> self_i p < self_i p')"
      using h
  proof (cases rule: parse_power_Suc_cases)
    case (fail e)
    then show ?thesis using fac by auto
  next
    case (single val p1)
    then show ?thesis
      using fac [of p "Inr val" p1] skip_spaces_advances [of p1] by (auto simp: advances_def)
  next
    case (rhs_fail val p1 e)
    then show ?thesis
      using fac [of p "Inr val" p1] skip_spaces_advances [of p1]
        next_char_advances [of "skip_spaces p1" 94 "[]"]
        pow [of "snd (next_char (skip_spaces p1))" "Inl e" p']
      by (auto simp: advances_def)
  next
    case (invalid val p1 rhs x)
    then show ?thesis
      using fac [of p "Inr val" p1] skip_spaces_advances [of p1]
        next_char_advances [of "skip_spaces p1" 94 "[]"]
        pow [of "snd (next_char (skip_spaces p1))" "Inr rhs" p']
      by (auto simp: advances_def)
  next
    case (power val p1 rhs v)
    then show ?thesis
      using fac [of p "Inr val" p1] skip_spaces_advances [of p1]
        next_char_advances [of "skip_spaces p1" 94 "[]"]
        pow [of "snd (next_char (skip_spaces p1))" "Inr rhs" p']
      by (auto simp: advances_def)
  qed
  qed
  have c6: "\<forall>p r p'. parse_factor (Suc n) p = (r, p') \<longrightarrow>
      advances p p' \<and> (\<forall>v. r = Inr v \<longrightarrow> self_i p < self_i p')"
  proof (intro allI impI)
    fix p r p'
    assume h: "parse_factor (Suc n) p = (r, p')"
    show "advances p p' \<and> (\<forall>v. r = Inr v \<longrightarrow> self_i p < self_i p')"
      using h
  proof (cases rule: parse_factor_Suc_cases)
    case (fail e)
    then show ?thesis using prim by auto
  next
    case (loop val p1)
    then show ?thesis
      using prim [of p "Inr val" p1] skip_spaces_advances [of p1]
        floop [of val "skip_spaces p1" r p']
      by (auto simp: advances_def)
  qed
  qed
  have c7: "\<forall>val p r p'. factor_loop (Suc n) val p = (r, p') \<longrightarrow>
      advances p p'"
  proof (intro allI impI)
    fix val p r p'
    assume h: "factor_loop (Suc n) val p = (r, p')"
    show "advances p p'"
      using h
  proof (cases rule: factor_loop_Suc_cases)
    case stop
    then show ?thesis by (simp add: advances_refl)
  next
    case (exn x)
    then show ?thesis using next_char_advances [of p 33 "[]"] by simp
  next
    case invalid
    then show ?thesis using next_char_advances [of p 33 "[]"] by simp
  next
    case (error x)
    then show ?thesis using next_char_advances [of p 33 "[]"] by simp
  next
    case (loop v)
    then show ?thesis
      using next_char_advances [of p 33 "[]"] skip_spaces_advances [of "snd (next_char p)"]
        floop [of v "skip_spaces (snd (next_char p))" r p']
      by (auto simp: advances_def)
  qed
  qed
  have digit_peek: "\<exists>c. peek q = [c]" if "isdigit (peek q)" for q
    using that peek_cases [of q] by (auto simp: isdigit_def)
  have c8: "\<forall>p r p'. parse_primary (Suc n) p = (r, p') \<longrightarrow>
      advances p p' \<and> (\<forall>v. r = Inr v \<longrightarrow> self_i p < self_i p')"
  proof (intro allI impI)
    fix p r p'
    assume h: "parse_primary (Suc n) p = (r, p')"
    show "advances p p' \<and> (\<forall>v. r = Inr v \<longrightarrow> self_i p < self_i p')"
      using h
  proof (cases rule: parse_primary_Suc_cases)
    case (paren_fail e)
    then show ?thesis
      using skip_spaces_advances [of p] next_char_advances [of "skip_spaces p" 40 "[]"]
        expr [of "snd (next_char (skip_spaces p))" "Inl e" p']
      by (auto simp: advances_def)
  next
    case (paren_missing val p2)
    then show ?thesis
      using skip_spaces_advances [of p] next_char_advances [of "skip_spaces p" 40 "[]"]
        expr [of "snd (next_char (skip_spaces p))" "Inr val" p2] skip_spaces_advances [of p2]
      by (auto simp: advances_def)
  next
    case (paren val p2)
    then show ?thesis
      using skip_spaces_advances [of p] next_char_advances [of "skip_spaces p" 40 "[]"]
        expr [of "snd (next_char (skip_spaces p))" "Inr val" p2] skip_spaces_advances [of p2]
        next_char_advances [of "skip_spaces p2" 41 "[]"]
      by (auto simp: advances_def)
  next
    case disallowed
    then show ?thesis
      using skip_spaces_advances [of p] digit_peek [of "skip_spaces p"]
        next_char_advances [of "skip_spaces p" _ "[]"]
      by (auto simp: advances_def)
  next
    case duplicate
    then show ?thesis
      using skip_spaces_advances [of p] digit_peek [of "skip_spaces p"]
        next_char_advances [of "skip_spaces p" _ "[]"]
      by (auto simp: advances_def)
  next
    case digit
    then show ?thesis
      using skip_spaces_advances [of p] digit_peek [of "skip_spaces p"]
        next_char_advances [of "skip_spaces p" _ "[]"]
      by (auto simp: advances_def)
  next
    case ended
    then show ?thesis using skip_spaces_advances [of p] by simp
  next
    case other
    then show ?thesis using skip_spaces_advances [of p] by simp
  qed
  qed
  show ?case
    by (intro conjI c1 c2 c3 c4 c5 c6 c7 c8)
qed

lemmas cursor_parse_expression = cursor_all [THEN conjunct1, rule_format]

lemmas cursor_expression_loop = cursor_all [THEN conjunct2, THEN conjunct1, rule_format]

lemmas cursor_parse_term = cursor_all [THEN conjunct2, THEN conjunct2, THEN conjunct1, rule_format]

lemmas cursor_term_loop = cursor_all [THEN conjunct2, THEN conjunct2, THEN conjunct2, THEN conjunct1, rule_format]

lemmas cursor_parse_power = cursor_all [THEN conjunct2, THEN conjunct2, THEN conjunct2, THEN conjunct2, THEN conjunct1, rule_format]

lemmas cursor_parse_factor = cursor_all [THEN conjunct2, THEN conjunct2, THEN conjunct2, THEN conjunct2, THEN conjunct2, THEN conjunct1, rule_format]

lemmas cursor_factor_loop = cursor_all [THEN conjunct2, THEN conjunct2, THEN conjunct2, THEN conjunct2, THEN conjunct2, THEN conjunct2, THEN conjunct1, rule_format]

lemmas cursor_parse_primary = cursor_all [THEN conjunct2, THEN conjunct2, THEN conjunct2, THEN conjunct2, THEN conjunct2, THEN conjunct2, THEN conjunct2, rule_format]

lemma fuel_step:
  "advances p q \<Longrightarrow> self_i p < self_i q \<Longrightarrow> 5 * (self_len p - self_i p) + a \<le> Suc n
   \<Longrightarrow> b \<le> a + 4 \<Longrightarrow> 5 * (self_len q - self_i q) + b \<le> n"
  by (auto simp: advances_def)

lemma fuel_all:
  "(\<forall>p r p'. parse_expression n p = (r, p') \<longrightarrow> 5 * (self_len p - self_i p) + 5 \<le> n \<longrightarrow>
      r \<noteq> Inl OutOfFuel)
   \<and> (\<forall>val p r p'. expression_loop n val p = (r, p') \<longrightarrow> 5 * (self_len p - self_i p) + 1 \<le> n \<longrightarrow>
      r \<noteq> Inl OutOfFuel)
   \<and> (\<forall>p r p'. parse_term n p = (r, p') \<longrightarrow> 5 * (self_len p - self_i p) + 4 \<le> n \<longrightarrow>
      r \<noteq> Inl OutOfFuel)
   \<and> (\<forall>val p r p'. term_loop n val p = (r, p') \<longrightarrow> 5 * (self_len p - self_i p) + 1 \<le> n \<longrightarrow>
      r \<noteq> Inl OutOfFuel)
   \<and> (\<forall>p r p'. parse_power n p = (r, p') \<longrightarrow> 5 * (self_len p - self_i p) + 3 \<le> n \<longrightarrow>
      r \<noteq> Inl OutOfFuel)
   \<and> (\<forall>p r p'. parse_factor n p = (r, p') \<longrightarrow> 5 * (self_len p - self_i p) + 2 \<le> n \<longrightarrow>
      r \<noteq> Inl OutOfFuel)
   \<and> (\<forall>val p r p'. factor_loop n val p = (r, p') \<longrightarrow> 5 * (self_len p - self_i p) + 1 \<le> n \<longrightarrow>
      r \<noteq> Inl OutOfFuel)
   \<and> (\<forall>p r p'. parse_primary n p = (r, p') \<longrightarrow> 5 * (self_len p - self_i p) + 1 \<le> n \<longrightarrow>
      r \<noteq> Inl OutOfFuel)"
proof (induction n)
  case 0
  show ?case by simp
next
  case (Suc n)
  have expr: "r \<noteq> Inl OutOfFuel"
    if "parse_expression n p = (r, p')" "5 * (self_len p - self_i p) + 5 \<le> n" for p r p'
    using Suc [THEN conjunct1, rule_format, OF that] .
  have eloop: "r \<noteq> Inl OutOfFuel"
    if "expression_loop n val p = (r, p')" "5 * (self_len p - self_i p) + 1 \<le> n" for val p r p'
    using Suc [THEN conjunct2, THEN conjunct1, rule_format, OF that] .
  have trm: "r \<noteq> Inl OutOfFuel"
    if "parse_term n p = (r, p')" "5 * (self_len p - self_i p) + 4 \<le> n" for p r p'
    using Suc [THEN conjunct2, THEN conjunct2, THEN conjunct1, rule_format, OF that] .
  have tloop: "r \<noteq> Inl OutOfFuel"
    if "term_loop n val p = (r, p')" "5 * (self_len p - self_i p) + 1 \<le> n" for val p r p'
    using Suc [THEN conjunct2, THEN conjunct2, THEN conjunct2, THEN conjunct1, rule_format, OF that] .
  have pow: "r \<noteq> Inl OutOfFuel"
    if "parse_power n p = (r, p')" "5 * (self_len p - self_i p) + 3 \<le> n" for p r p'
    using Suc [THEN conjunct2, THEN conjunct2, THEN conjunct2, THEN conjunct2, THEN conjunct1, rule_format, OF that] .
  have fac: "r \<noteq> Inl OutOfFuel"
    if "parse_factor n p = (r, p')" "5 * (self_len p - self_i p) + 2 \<le> n" for p r p'
    using Suc [THEN conjunct2, THEN conjunct2, THEN conjunct2, THEN conjunct2, THEN conjunct2, THEN conjunct1, rule_format, OF that] .
  have floop: "r \<noteq> Inl OutOfFuel"
    if "factor_loop n val p = (r, p')" "5 * (self_len p - self_i p) + 1 \<le> n" for val p r p'
    using Suc [THEN conjunct2, THEN conjunct2, THEN conjunct2, THEN conjunct2, THEN conjunct2, THEN conjunct2, THEN conjunct1, rule_format, OF that] .
  have prim: "r \<noteq> Inl OutOfFuel"
    if "parse_primary n p = (r, p')" "5 * (self_len p - self_i p) + 1 \<le> n" for p r p'
    using Suc [THEN conjunct2, THEN conjunct2, THEN conjunct2, THEN conjunct2, THEN conjunct2, THEN conjunct2, THEN conjunct2, rule_format, OF that] .
  have c1: "\<forall>p r p'. parse_expression (Suc n) p = (r, p') \<longrightarrow> 5 * (self_len p - self_i p) + 5 \<le> Suc n \<longrightarrow>
      r \<noteq> Inl OutOfFuel"
  proof (intro allI impI)
    fix p r p'
    assume h0: "parse_expression (Suc n) p = (r, p')"
    assume h1: "5 * (self_len p - self_i p) + 5 \<le> Suc n"
    show "r \<noteq> Inl OutOfFuel"
      using h0
    proof (cases rule: parse_expression_Suc_cases)
      case (fail e)
      have "5 * (self_len p - self_i p) + 4 \<le> n"
        using h1 by simp
      then show ?thesis
        using trm [OF fail(1)] fail by simp
    next
      case (loop val p1)
      have s: "advances p (p1) \<and> self_i p < self_i (p1)"
        using loop cursor_parse_term [OF loop(1)]
        by (auto simp: advances_def)
      have "5 * (self_len (p1) - self_i (p1)) + 1 \<le> n"
        by (rule fuel_step [OF s [THEN conjunct1] s [THEN conjunct2] h1]) simp
      then show ?thesis
        using eloop [OF loop(2)] loop by simp
    qed
  qed
  have c2: "\<forall>val p r p'. expression_loop (Suc n) val p = (r, p') \<longrightarrow> 5 * (self_len p - self_i p) + 1 \<le> Suc n \<longrightarrow>
      r \<noteq> Inl OutOfFuel"
  proof (intro allI impI)
    fix val p r p'
    assume h0: "expression_loop (Suc n) val p = (r, p')"
    assume h1: "5 * (self_len p - self_i p) + 1 \<le> Suc n"
    show "r \<noteq> Inl OutOfFuel"
      using h0
    proof (cases rule: expression_loop_Suc_cases)
      case stop
      then show ?thesis
        by simp
    next
      case (fail c e)
      have s: "advances p (snd (next_char (skip_spaces p))) \<and> self_i p < self_i (snd (next_char (skip_spaces p)))"
        using fail skip_spaces_advances [of p] next_char_advances [of "skip_spaces p" c "[]"]
        by (auto simp: advances_def)
      have "5 * (self_len (snd (next_char (skip_spaces p))) - self_i (snd (next_char (skip_spaces p)))) + 4 \<le> n"
        by (rule fuel_step [OF s [THEN conjunct1] s [THEN conjunct2] h1]) simp
      then show ?thesis
        using trm [OF fail(2)] fail by simp
    next
      case (exn c rhs x)
      then show ?thesis
        by simp
    next
      case (loop c rhs p3 v)
      have s: "advances p (p3) \<and> self_i p < self_i (p3)"
        using loop skip_spaces_advances [of p] next_char_advances [of "skip_spaces p" c "[]"] cursor_parse_term [OF loop(2)]
        by (auto simp: advances_def)
      have "5 * (self_len (p3) - self_i (p3)) + 1 \<le> n"
        by (rule fuel_step [OF s [THEN conjunct1] s [THEN conjunct2] h1]) simp
      then show ?thesis
        using eloop [OF loop(3)] loop by simp
    qed
  qed
  have c3: "\<forall>p r p'. parse_term (Suc n) p = (r, p') \<longrightarrow> 5 * (self_len p - self_i p) + 4 \<le> Suc n \<longrightarrow>
      r \<noteq> Inl OutOfFuel"
  proof (intro allI impI)
    fix p r p'
    assume h0: "parse_term (Suc n) p = (r, p')"
    assume h1: "5 * (self_len p - self_i p) + 4 \<le> Suc n"
    show "r \<noteq> Inl OutOfFuel"
      using h0
    proof (cases rule: parse_term_Suc_cases)
      case (fail e)
      have "5 * (self_len p - self_i p) + 3 \<le> n"
        using h1 by simp
      then show ?thesis
        using pow [OF fail(1)] fail by simp
    next
      case (loop val p1)
      have s: "advances p (p1) \<and> self_i p < self_i (p1)"
        using loop cursor_parse_power [OF loop(1)]
        by (auto simp: advances_def)
      have "5 * (self_len (p1) - self_i (p1)) + 1 \<le> n"
        by (rule fuel_step [OF s [THEN conjunct1] s [THEN conjunct2] h1]) simp
      then show ?thesis
        using tloop [OF loop(2)] loop by simp
    qed
  qed
  have c4: "\<forall>val p r p'. term_loop (Suc n) val p = (r, p') \<longrightarrow> 5 * (self_len p - self_i p) + 1 \<le> Suc n \<longrightarrow>
      r \<noteq> Inl OutOfFuel"
  proof (intro allI impI)
    fix val p r p'
    assume h0: "term_loop (Suc n) val p = (r, p')"
    assume h1: "5 * (self_len p - self_i p) + 1 \<le> Suc n"
    show "r \<noteq> Inl OutOfFuel"
      using h0
    proof (cases rule: term_loop_Suc_cases)
      case stop
      then show ?thesis
        by simp
    next
      case (fail c e)
      have s: "advances p (snd (next_char (skip_spaces p))) \<and> self_i p < self_i (snd (next_char (skip_spaces p)))"
        using fail skip_spaces_advances [of p] next_char_advances [of "skip_spaces p" c "[]"]
        by (auto simp: advances_def)
      have "5 * (self_len (snd (next_char (skip_spaces p))) - self_i (snd (next_char (skip_spaces p)))) + 3 \<le> n"
        by (rule fuel_step [OF s [THEN conjunct1] s [THEN conjunct2] h1]) simp
      then show ?thesis
        using pow [OF fail(2)] fail by simp
    next
      case (exn c rhs x)
      then show ?thesis
        by simp
    next
      case (zero rhs)
      then show ?thesis
        by simp
    next
      case (loop c rhs p3 v)
      have s: "advances p (p3) \<and> self_i p < self_i (p3)"
        using loop skip_spaces_advances [of p] next_char_advances [of "skip_spaces p" c "[]"] cursor_parse_power [OF loop(2)]
        by (auto simp: advances_def)
      have "5 * (self_len (p3) - self_i (p3)) + 1 \<le> n"
        by (rule fuel_step [OF s [THEN conjunct1] s [THEN conjunct2] h1]) simp
      then show ?thesis
        using tloop [OF loop(3)] loop by simp
    qed
  qed
  have c5: "\<forall>p r p'. parse_power (Suc n) p = (r, p') \<longrightarrow> 5 * (self_len p - self_i p) + 3 \<le> Suc n \<longrightarrow>
      r \<noteq> Inl OutOfFuel"
  proof (intro allI impI)
    fix p r p'
    assume h0: "parse_power (Suc n) p = (r, p')"
    assume h1: "5 * (self_len p - self_i p) + 3 \<le> Suc n"
    show "r \<noteq> Inl OutOfFuel"
      using h0
    proof (cases rule: parse_power_Suc_cases)
      case (fail e)
      have "5 * (self_len p - self_i p) + 2 \<le> n"
        using h1 by simp
      then show ?thesis
        using fac [OF fail(1)] fail by simp
    next
      case (single val p1)
      then show ?thesis
        by simp
    next
      case (rhs_fail val p1 e)
      have s: "advances p (snd (next_char (skip_spaces p1))) \<and> self_i p < self_i (snd (next_char (skip_spaces p1)))"
        using rhs_fail cursor_parse_factor [OF rhs_fail(1)] skip_spaces_advances [of p1] next_char_advances [of "skip_spaces p1" 94 "[]"]
        by (auto simp: advances_def)
      have "5 * (self_len (snd (next_char (skip_spaces p1))) - self_i (snd (next_char (skip_spaces p1)))) + 3 \<le> n"
        by (rule fuel_step [OF s [THEN conjunct1] s [THEN conjunct2] h1]) simp
      then show ?thesis
        using pow [OF rhs_fail(3)] rhs_fail by simp
    next
      case (invalid val p1 rhs x)
      then show ?thesis
        by simp
    next
      case (power val p1 rhs v)
      then show ?thesis
        by simp
    qed
  qed
  have c6: "\<forall>p r p'. parse_factor (Suc n) p = (r, p') \<longrightarrow> 5 * (self_len p - self_i p) + 2 \<le> Suc n \<longrightarrow>
      r \<noteq> Inl OutOfFuel"
  proof (intro allI impI)
    fix p r p'
    assume h0: "parse_factor (Suc n) p = (r, p')"
    assume h1: "5 * (self_len p - self_i p) + 2 \<le> Suc n"
    show "r \<noteq> Inl OutOfFuel"
      using h0
    proof (cases rule: parse_factor_Suc_cases)
      case (fail e)
      have "5 * (self_len p - self_i p) + 1 \<le> n"
        using h1 by simp
      then show ?thesis
        using prim [OF fail(1)] fail by simp
    next
      case (loop val p1)
      have s: "advances p (skip_spaces p1) \<and> self_i p < self_i (skip_spaces p1)"
        using loop cursor_parse_primary [OF loop(1)] skip_spaces_advances [of p1]
        by (auto simp: advances_def)
      have "5 * (self_len (skip_spaces p1) - self_i (skip_spaces p1)) + 1 \<le> n"
        by (rule fuel_step [OF s [THEN conjunct1] s [THEN conjunct2] h1]) simp
      then show ?thesis
        using floop [OF loop(2)] loop by simp
    qed
  qed
  have c7: "\<forall>val p r p'. factor_loop (Suc n) val p = (r, p') \<longrightarrow> 5 * (self_len p - self_i p) + 1 \<le> Suc n \<longrightarrow>
      r \<noteq> Inl OutOfFuel"
  proof (intro allI impI)
    fix val p r p'
    assume h0: "factor_loop (Suc n) val p = (r, p')"
    assume h1: "5 * (self_len p - self_i p) + 1 \<le> Suc n"
    show "r \<noteq> Inl OutOfFuel"
      using h0
    proof (cases rule: factor_loop_Suc_cases)
      case stop
      then show ?thesis
        by simp
    next
      case (exn x)
      then show ?thesis
        by simp
    next
      case invalid
      then show ?thesis
        by simp
    next
      case (error x)
      then show ?thesis
        by simp
    next
      case (loop v)
      have s: "advances p (skip_spaces (snd (next_char p))) \<and> self_i p < self_i (skip_spaces (snd (next_char p)))"
        using loop next_char_advances [of p 33 "[]"] skip_spaces_advances [of "snd (next_char p)"]
        by (auto simp: advances_def)
      have "5 * (self_len (skip_spaces (snd (next_char p))) - self_i (skip_spaces (snd (next_char p)))) + 1 \<le> n"
        by (rule fuel_step [OF s [THEN conjunct1] s [THEN conjunct2] h1]) simp
      then show ?thesis
        using floop [OF loop(2)] loop by simp
    qed
  qed
  have c8: "\<forall>p r p'. parse_primary (Suc n) p = (r, p') \<longrightarrow> 5 * (self_len p - self_i p) + 1 \<le> Suc n \<longrightarrow>
      r \<noteq> Inl OutOfFuel"
  proof (intro allI impI)
    fix p r p'
    assume h0: "parse_primary (Suc n) p = (r, p')"
    assume h1: "5 * (self_len p - self_i p) + 1 \<le> Suc n"
    show "r \<noteq> Inl OutOfFuel"
      using h0
    proof (cases rule: parse_primary_Suc_cases)
      case (paren_fail e)
      have s: "advances p (snd (next_char (skip_spaces p))) \<and> self_i p < self_i (snd (next_char (skip_spaces p)))"
        using paren_fail skip_spaces_advances [of p] next_char_advances [of "skip_spaces p" 40 "[]"]
        by (auto simp: advances_def)
      have "5 * (self_len (snd (next_char (skip_spaces p))) - self_i (snd (next_char (skip_spaces p)))) + 5 \<le> n"
        by (rule fuel_step [OF s [THEN conjunct1] s [THEN conjunct2] h1]) simp
      then show ?thesis
        using expr [OF paren_fail(2)] paren_fail by simp
    next
      case (paren_missing val p2)
      then show ?thesis
        by simp
    next
      case (paren val p2)
      then show ?thesis
        by simp
    next
      case disallowed
      then show ?thesis
        by simp
    next
      case duplicate
      then show ?thesis
        by simp
    next
      case digit
      then show ?thesis
        by simp
    next
      case ended
      then show ?thesis
        by simp
    next
      case other
      then show ?thesis
        by simp
    qed
  qed
  show ?case
    by (intro conjI c1 c2 c3 c4 c5 c6 c7 c8)
qed

lemma parse_run_fuel: "fst (parse_run text) \<noteq> Inl OutOfFuel"
proof -
  obtain r p2 where e: "parse_expression (5 * self_len (skip_spaces (Parser text)) + 5)
      (skip_spaces (Parser text)) = (r, p2)"
    by (cases "parse_expression (5 * self_len (skip_spaces (Parser text)) + 5)
      (skip_spaces (Parser text))") auto
  have "r \<noteq> Inl OutOfFuel"
    using fuel_all [THEN conjunct1, rule_format, OF e] by simp
  then show ?thesis
    using e by (auto simp: parse_run_def Let_def split: sum.splits pyval.splits)
qed

lemma unicode_digit_table:
  "unicode_digit_table c \<Longrightarrow> 1632 \<le> c \<and> \<not> unicode_isspace c"
proof -
  have "\<exists>f. \<forall>c. f c \<longrightarrow> 1632 \<le> c \<and> \<not> unicode_isspace c"
    by (rule exI [of _ "\<lambda>c. False"]) simp
  from someI_ex [OF this] show "unicode_digit_table c \<Longrightarrow> 1632 \<le> c \<and> \<not> unicode_isspace c"
    unfolding unicode_digit_table_def by blast
qed

lemma isspace_not_isdigit: "unicode_isspace c \<Longrightarrow> \<not> unicode_isdigit c"
  using unicode_digit_table [of c]
  by (auto simp: unicode_isdigit_def unicode_isspace_def)

lemma backtick_not_isdigit: "\<not> unicode_isdigit 96"
  by (simp add: unicode_isdigit_def)

lemma isdigit_peek: "isdigit (peek p) \<Longrightarrow> \<exists>c. peek p = [c] \<and> unicode_isdigit c"
  using peek_cases [of p] by (auto simp: isdigit_def)

lemma ledger_next:
  "ledger_ok p \<Longrightarrow> peek p = [c] \<Longrightarrow> \<not> unicode_isdigit c \<Longrightarrow> ledger_ok (snd (next_char p))"
  by (auto simp: ledger_ok_def consumed_digits_def next_char_def take_Suc_conv_app_nth
      dest!: peek_Cons)

lemma ledger_skip: "ledger_ok p \<Longrightarrow> ledger_ok (skip_spaces p)"
proof (induction p rule: skip_spaces.induct)
  case (1 p)
  show ?case
  proof (cases "isspace (peek p) \<or> peek p = py ''`''")
    case True
    then obtain c where c: "peek p = [c]" "\<not> unicode_isdigit c"
      using peek_cases [of p]
      by (auto simp: isspace_def isspace_not_isdigit backtick_not_isdigit)
    have "ledger_ok (snd (next_char p))"
      using ledger_next [OF "1.prems" c] .
    then show ?thesis
      using "1.IH" True by (subst skip_spaces.simps) simp
  next
    case False
    then show ?thesis using "1.prems" by (subst skip_spaces.simps) simp
  qed
qed

lemma ledger_digit:
  assumes "ledger_ok p" "isdigit (peek p)" "peek p \<notin> self_used_digits p"
  shows "ledger_ok ((snd (next_char p))
           \<lparr>self_used_digits := insert (peek p) (self_used_digits p)\<rparr>)"
proof -
  obtain c where c: "peek p = [c]" "unicode_isdigit c"
    using isdigit_peek [OF assms(2)] by blast
  have lt: "self_i p < length (self_text p)" and nth: "self_text p ! self_i p = c"
    using peek_Cons [OF c(1)] assms(1) by (auto simp: ledger_ok_def)
  show ?thesis
    using assms(1,3) lt nth c
    by (auto simp: ledger_ok_def consumed_digits_def next_char_def take_Suc_conv_app_nth)
qed

lemma ledger_disallowed:
  assumes "ledger_ok p" "isdigit (peek p)" "peek p \<notin> allowed_digits"
  shows "\<not> welldigits (self_text p)"
proof -
  obtain c where c: "peek p = [c]" "unicode_isdigit c"
    using isdigit_peek [OF assms(2)] by blast
  have lt: "self_i p < length (self_text p)" and nth: "self_text p ! self_i p = c"
    using peek_Cons [OF c(1)] assms(1) by (auto simp: ledger_ok_def)
  have "c \<in> set (self_text p)"
    using lt nth nth_mem by blast
  then show ?thesis
    using assms(3) c by (auto simp: welldigits_def list_all_iff)
qed

lemma ledger_duplicate:
  assumes "ledger_ok p" "isdigit (peek p)" "peek p \<in> self_used_digits p"
  shows "\<not> welldigits (self_text p)"
proof -
  obtain c where c: "peek p = [c]" "unicode_isdigit c"
    using isdigit_peek [OF assms(2)] by blast
  have lt: "self_i p < length (self_text p)" and nth: "c = self_text p ! self_i p"
    using peek_Cons [OF c(1)] assms(1) by (auto simp: ledger_ok_def)
  have mem: "c \<in> set (filter unicode_isdigit (take (self_i p) (self_text p)))"
    using assms(1,3) c(1) by (auto simp: ledger_ok_def consumed_digits_def)
  have "self_text p = take (self_i p) (self_text p) @ c # drop (Suc (self_i p)) (self_text p)"
    using lt nth by (simp add: id_take_nth_drop)
  then have "filter unicode_isdigit (self_text p) =
      filter unicode_isdigit (take (self_i p) (self_text p))
      @ c # filter unicode_isdigit (drop (Suc (self_i p)) (self_text p))"
    using c(2) by (metis filter.simps(2) filter_append)
  then show ?thesis
    using mem by (auto simp: welldigits_def)
qed

lemma self_text_skip_spaces [simp]: "self_text (skip_spaces p) = self_text p"
  using skip_spaces_advances [of p] by (simp add: advances_def)

lemma self_text_next_char [simp]: "self_text (snd (next_char p)) = self_text p"
  by (simp add: next_char_def)

lemma ledger_all:
  "(\<forall>p r p'. parse_expression n p = (r, p') \<longrightarrow> ledger_ok p \<longrightarrow>
      (\<forall>v. r = Inr v \<longrightarrow> ledger_ok p')
      \<and> (welldigits (self_text p) \<longrightarrow> \<not> is_digit_error r))
   \<and> (\<forall>val p r p'. expression_loop n val p = (r, p') \<longrightarrow> ledger_ok p \<longrightarrow>
      (\<forall>v. r = Inr v \<longrightarrow> ledger_ok p')
      \<and> (welldigits (self_text p) \<longrightarrow> \<not> is_digit_error r))
   \<and> (\<forall>p r p'. parse_term n p = (r, p') \<longrightarrow> ledger_ok p \<longrightarrow>
      (\<forall>v. r = Inr v \<longrightarrow> ledger_ok p')
      \<and> (welldigits (self_text p) \<longrightarrow> \<not> is_digit_error r))
   \<and> (\<forall>val p r p'. term_loop n val p = (r, p') \<longrightarrow> ledger_ok p \<longrightarrow>
      (\<forall>v. r = Inr v \<longrightarrow> ledger_ok p')
      \<and> (welldigits (self_text p) \<longrightarrow> \<not> is_digit_error r))
   \<and> (\<forall>p r p'. parse_power n p = (r, p') \<longrightarrow> ledger_ok p \<longrightarrow>
      (\<forall>v. r = Inr v \<longrightarrow> ledger_ok p')
      \<and> (welldigits (self_text p) \<longrightarrow> \<not> is_digit_error r))
   \<and> (\<forall>p r p'. parse_factor n p = (r, p') \<longrightarrow> ledger_ok p \<longrightarrow>
      (\<forall>v. r = Inr v \<longrightarrow> ledger_ok p')
      \<and> (welldigits (self_text p) \<longrightarrow> \<not> is_digit_error r))
   \<and> (\<forall>val p r p'. factor_loop n val p = (r, p') \<longrightarrow> ledger_ok p \<longrightarrow>
      (\<forall>v. r = Inr v \<longrightarrow> ledger_ok p')
      \<and> (welldigits (self_text p) \<longrightarrow> \<not> is_digit_error r))
   \<and> (\<forall>p r p'. parse_primary n p = (r, p') \<longrightarrow> ledger_ok p \<longrightarrow>
      (\<forall>v. r = Inr v \<longrightarrow> ledger_ok p')
      \<and> (welldigits (self_text p) \<longrightarrow> \<not> is_digit_error r))"
proof (induction n)
  case 0
  show ?case by auto
next
  case (Suc n)
  have expr: "(\<forall>v. r = Inr v \<longrightarrow> ledger_ok p')
      \<and> (welldigits (self_text p) \<longrightarrow> \<not> is_digit_error r)"
    if "parse_expression n p = (r, p')" "ledger_ok p" for p r p'
    using Suc [THEN conjunct1, rule_format, OF that] .
  have eloop: "(\<forall>v. r = Inr v \<longrightarrow> ledger_ok p')
      \<and> (welldigits (self_text p) \<longrightarrow> \<not> is_digit_error r)"
    if "expression_loop n val p = (r, p')" "ledger_ok p" for val p r p'
    using Suc [THEN conjunct2, THEN conjunct1, rule_format, OF that] .
  have trm: "(\<forall>v. r = Inr v \<longrightarrow> ledger_ok p')
      \<and> (welldigits (self_text p) \<longrightarrow> \<not> is_digit_error r)"
    if "parse_term n p = (r, p')" "ledger_ok p" for p r p'
    using Suc [THEN conjunct2, THEN conjunct2, THEN conjunct1, rule_format, OF that] .
  have tloop: "(\<forall>v. r = Inr v \<longrightarrow> ledger_ok p')
      \<and> (welldigits (self_text p) \<longrightarrow> \<not> is_digit_error r)"
    if "term_loop n val p = (r, p')" "ledger_ok p" for val p r p'
    using Suc [THEN conjunct2, THEN conjunct2, THEN conjunct2, THEN conjunct1, rule_format, OF that] .
  have pow: "(\<forall>v. r = Inr v \<longrightarrow> ledger_ok p')
      \<and> (welldigits (self_text p) \<longrightarrow> \<not> is_digit_error r)"
    if "parse_power n p = (r, p')" "ledger_ok p" for p r p'
    using Suc [THEN conjunct2, THEN conjunct2, THEN conjunct2, THEN conjunct2, THEN conjunct1, rule_format, OF that] .
  have fac: "(\<forall>v. r = Inr v \<longrightarrow> ledger_ok p')
      \<and> (welldigits (self_text p) \<longrightarrow> \<not> is_digit_error r)"
    if "parse_factor n p = (r, p')" "ledger_ok p" for p r p'
    using Suc [THEN conjunct2, THEN conjunct2, THEN conjunct2, THEN conjunct2, THEN conjunct2, THEN conjunct1, rule_format, OF that] .
  have floop: "(\<forall>v. r = Inr v \<longrightarrow> ledger_ok p')
      \<and> (welldigits (self_text p) \<longrightarrow> \<not> is_digit_error r)"
    if "factor_loop n val p = (r, p')" "ledger_ok p" for val p r p'
    using Suc [THEN conjunct2, THEN conjunct2, THEN conjunct2, THEN conjunct2, THEN conjunct2, THEN conjunct2, THEN conjunct1, rule_format, OF that] .
  have prim: "(\<forall>v. r = Inr v \<longrightarrow> ledger_ok p')
      \<and> (welldigits (self_text p) \<longrightarrow> \<not> is_digit_error r)"
    if "parse_primary n p = (r, p')" "ledger_ok p" for p r p'
    using Suc [THEN conjunct2, THEN conjunct2, THEN conjunct2, THEN conjunct2, THEN conjunct2, THEN conjunct2, THEN conjunct2, rule_format, OF that] .
  have c1: "\<forall>p r p'. parse_expression (Suc n) p = (r, p') \<longrightarrow> ledger_ok p \<longrightarrow>
      (\<forall>v. r = Inr v \<longrightarrow> ledger_ok p')
      \<and> (welldigits (self_text p) \<longrightarrow> \<not> is_digit_error r)"
  proof (intro allI impI)
    fix p r p'
    assume h0: "parse_expression (Suc n) p = (r, p')"
    assume h1: "ledger_ok p"
    show "(\<forall>v. r = Inr v \<longrightarrow> ledger_ok p')
      \<and> (welldigits (self_text p) \<longrightarrow> \<not> is_digit_error r)"
      using h0
    proof (cases rule: parse_expression_Suc_cases)
      case (fail e)
      then show ?thesis
        using trm [OF fail(1) h1] fail by simp
    next
      case (loop val p1)
      have a: "ledger_ok p1" "self_text p1 = self_text p"
        using trm [OF loop(1) h1] cursor_parse_term [OF loop(1)] by (auto simp: advances_def)
      show ?thesis
        using eloop [OF loop(2) a(1)] a(2) by simp
    qed
  qed
  have c2: "\<forall>val p r p'. expression_loop (Suc n) val p = (r, p') \<longrightarrow> ledger_ok p \<longrightarrow>
      (\<forall>v. r = Inr v \<longrightarrow> ledger_ok p')
      \<and> (welldigits (self_text p) \<longrightarrow> \<not> is_digit_error r)"
  proof (intro allI impI)
    fix val p r p'
    assume h0: "expression_loop (Suc n) val p = (r, p')"
    assume h1: "ledger_ok p"
    show "(\<forall>v. r = Inr v \<longrightarrow> ledger_ok p')
      \<and> (welldigits (self_text p) \<longrightarrow> \<not> is_digit_error r)"
      using h0
    proof (cases rule: expression_loop_Suc_cases)
      case stop
      then show ?thesis
        using ledger_skip [OF h1] by simp
    next
      case (fail c e)
      have q: "ledger_ok (snd (next_char (skip_spaces p)))"
        using ledger_next [OF ledger_skip [OF h1] fail(1)] fail(4)
        by (auto simp: unicode_isdigit_def)
      show ?thesis
        using trm [OF fail(2) q] fail by simp
    next
      case (exn c rhs x)
      then show ?thesis
        by simp
    next
      case (loop c rhs p3 v)
      have q: "ledger_ok (snd (next_char (skip_spaces p)))"
        using ledger_next [OF ledger_skip [OF h1] loop(1)] loop(4)
        by (auto simp: unicode_isdigit_def)
      have a: "ledger_ok p3" "self_text p3 = self_text p"
        using trm [OF loop(2) q] cursor_parse_term [OF loop(2)] by (auto simp: advances_def)
      show ?thesis
        using eloop [OF loop(3) a(1)] a(2) by simp
    qed
  qed
  have c3: "\<forall>p r p'. parse_term (Suc n) p = (r, p') \<longrightarrow> ledger_ok p \<longrightarrow>
      (\<forall>v. r = Inr v \<longrightarrow> ledger_ok p')
      \<and> (welldigits (self_text p) \<longrightarrow> \<not> is_digit_error r)"
  proof (intro allI impI)
    fix p r p'
    assume h0: "parse_term (Suc n) p = (r, p')"
    assume h1: "ledger_ok p"
    show "(\<forall>v. r = Inr v \<longrightarrow> ledger_ok p')
      \<and> (welldigits (self_text p) \<longrightarrow> \<not> is_digit_error r)"
      using h0
    proof (cases rule: parse_term_Suc_cases)
      case (fail e)
      then show ?thesis
        using pow [OF fail(1) h1] fail by simp
    next
      case (loop val p1)
      have a: "ledger_ok p1" "self_text p1 = self_text p"
        using pow [OF loop(1) h1] cursor_parse_power [OF loop(1)] by (auto simp: advances_def)
      show ?thesis
        using tloop [OF loop(2) a(1)] a(2) by simp
    qed
  qed
  have c4: "\<forall>val p r p'. term_loop (Suc n) val p = (r, p') \<longrightarrow> ledger_ok p \<longrightarrow>
      (\<forall>v. r = Inr v \<longrightarrow> ledger_ok p')
      \<and> (welldigits (self_text p) \<longrightarrow> \<not> is_digit_error r)"
  proof (intro allI impI)
    fix val p r p'
    assume h0: "term_loop (Suc n) val p = (r, p')"
    assume h1: "ledger_ok p"
    show "(\<forall>v. r = Inr v \<longrightarrow> ledger_ok p')
      \<and> (welldigits (self_text p) \<longrightarrow> \<not> is_digit_error r)"
      using h0
    proof (cases rule: term_loop_Suc_cases)
      case stop
      then show ?thesis
        using ledger_skip [OF h1] by simp
    next
      case (fail c e)
      have q: "ledger_ok (snd (next_char (skip_spaces p)))"
        using ledger_next [OF ledger_skip [OF h1] fail(1)] fail(4)
        by (auto simp: unicode_isdigit_def)
      show ?thesis
        using pow [OF fail(2) q] fail by simp
    next
      case (exn c rhs x)
      then show ?thesis
        by simp
    next
      case (zero rhs)
      then show ?thesis
        by simp
    next
      case (loop c rhs p3 v)
      have q: "ledger_ok (snd (next_char (skip_spaces p)))"
        using ledger_next [OF ledger_skip [OF h1] loop(1)] loop(4)
        by (auto simp: unicode_isdigit_def)
      have a: "ledger_ok p3" "self_text p3 = self_text p"
        using pow [OF loop(2) q] cursor_parse_power [OF loop(2)] by (auto simp: advances_def)
      show ?thesis
        using tloop [OF loop(3) a(1)] a(2) by simp
    qed
  qed
  have c5: "\<forall>p r p'. parse_power (Suc n) p = (r, p') \<longrightarrow> ledger_ok p \<longrightarrow>
      (\<forall>v. r = Inr v \<longrightarrow> ledger_ok p')
      \<and> (welldigits (self_text p) \<longrightarrow> \<not> is_digit_error r)"
  proof (intro allI impI)
    fix p r p'
    assume h0: "parse_power (Suc n) p = (r, p')"
    assume h1: "ledger_ok p"
    show "(\<forall>v. r = Inr v \<longrightarrow> ledger_ok p')
      \<and> (welldigits (self_text p) \<longrightarrow> \<not> is_digit_error r)"
      using h0
    proof (cases rule: parse_power_Suc_cases)
      case (fail e)
      then show ?thesis
        using fac [OF fail(1) h1] fail by simp
    next
      case (single val p1)
      then show ?thesis
        using fac [OF single(1) h1] ledger_skip [of p1] by simp
    next
      case (rhs_fail val p1 e)
      have a: "ledger_ok p1" "self_text p1 = self_text p"
        using fac [OF rhs_fail(1) h1] cursor_parse_factor [OF rhs_fail(1)] by (auto simp: advances_def)
      have q: "ledger_ok (snd (next_char (skip_spaces p1)))"
        using ledger_next [OF ledger_skip [OF a(1)], of 94] rhs_fail(2)
        by (auto simp: unicode_isdigit_def)
      show ?thesis
        using pow [OF rhs_fail(3) q] a(2) rhs_fail by simp
    next
      case (invalid val p1 rhs x)
      then show ?thesis
        by simp
    next
      case (power val p1 rhs v)
      have a: "ledger_ok p1" "self_text p1 = self_text p"
        using fac [OF power(1) h1] cursor_parse_factor [OF power(1)] by (auto simp: advances_def)
      have q: "ledger_ok (snd (next_char (skip_spaces p1)))"
        using ledger_next [OF ledger_skip [OF a(1)], of 94] power(2)
        by (auto simp: unicode_isdigit_def)
      show ?thesis
        using pow [OF power(3) q] power by simp
    qed
  qed
  have c6: "\<forall>p r p'. parse_factor (Suc n) p = (r, p') \<longrightarrow> ledger_ok p \<longrightarrow>
      (\<forall>v. r = Inr v \<longrightarrow> ledger_ok p')
      \<and> (welldigits (self_text p) \<longrightarrow> \<not> is_digit_error r)"
  proof (intro allI impI)
    fix p r p'
    assume h0: "parse_factor (Suc n) p = (r, p')"
    assume h1: "ledger_ok p"
    show "(\<forall>v. r = Inr v \<longrightarrow> ledger_ok p')
      \<and> (welldigits (self_text p) \<longrightarrow> \<not> is_digit_error r)"
      using h0
    proof (cases rule: parse_factor_Suc_cases)
      case (fail e)
      then show ?thesis
        using prim [OF fail(1) h1] fail by simp
    next
      case (loop val p1)
      have a: "ledger_ok p1" "self_text p1 = self_text p"
        using prim [OF loop(1) h1] cursor_parse_primary [OF loop(1)] by (auto simp: advances_def)
      show ?thesis
        using floop [OF loop(2) ledger_skip [OF a(1)]] a(2) by simp
    qed
  qed
  have c7: "\<forall>val p r p'. factor_loop (Suc n) val p = (r, p') \<longrightarrow> ledger_ok p \<longrightarrow>
      (\<forall>v. r = Inr v \<longrightarrow> ledger_ok p')
      \<and> (welldigits (self_text p) \<longrightarrow> \<not> is_digit_error r)"
  proof (intro allI impI)
    fix val p r p'
    assume h0: "factor_loop (Suc n) val p = (r, p')"
    assume h1: "ledger_ok p"
    show "(\<forall>v. r = Inr v \<longrightarrow> ledger_ok p')
      \<and> (welldigits (self_text p) \<longrightarrow> \<not> is_digit_error r)"
      using h0
    proof (cases rule: factor_loop_Suc_cases)
      case stop
      then show ?thesis
        using h1 by simp
    next
      case (exn x)
      then show ?thesis
        by simp
    next
      case invalid
      then show ?thesis
        by simp
    next
      case (error x)
      then show ?thesis
        by simp
    next
      case (loop v)
      have q: "ledger_ok (skip_spaces (snd (next_char p)))"
        using ledger_skip [OF ledger_next [OF h1, of 33]] loop(1)
        by (auto simp: unicode_isdigit_def)
      show ?thesis
        using floop [OF loop(2) q] by simp
    qed
  qed
  have c8: "\<forall>p r p'. parse_primary (Suc n) p = (r, p') \<longrightarrow> ledger_ok p \<longrightarrow>
      (\<forall>v. r = Inr v \<longrightarrow> ledger_ok p')
      \<and> (welldigits (self_text p) \<longrightarrow> \<not> is_digit_error r)"
  proof (intro allI impI)
    fix p r p'
    assume h0: "parse_primary (Suc n) p = (r, p')"
    assume h1: "ledger_ok p"
    show "(\<forall>v. r = Inr v \<longrightarrow> ledger_ok p')
      \<and> (welldigits (self_text p) \<longrightarrow> \<not> is_digit_error r)"
      using h0
    proof (cases rule: parse_primary_Suc_cases)
      case (paren_fail e)
      have q: "ledger_ok (snd (next_char (skip_spaces p)))"
        using ledger_next [OF ledger_skip [OF h1], of 40] paren_fail(1)
        by (auto simp: unicode_isdigit_def)
      show ?thesis
        using expr [OF paren_fail(2) q] paren_fail by simp
    next
      case (paren_missing val p2)
      then show ?thesis
        by simp
    next
      case (paren val p2)
      have q: "ledger_ok (snd (next_char (skip_spaces p)))"
        using ledger_next [OF ledger_skip [OF h1], of 40] paren(1)
        by (auto simp: unicode_isdigit_def)
      have a: "ledger_ok p2"
        using expr [OF paren(2) q] by simp
      have "ledger_ok (snd (next_char (skip_spaces p2)))"
        using ledger_next [OF ledger_skip [OF a], of 41] paren(3)
        by (auto simp: unicode_isdigit_def)
      then show ?thesis
        using paren by simp
    next
      case disallowed
      then show ?thesis
        using ledger_disallowed [OF ledger_skip [OF h1] disallowed(1,2)] by simp
    next
      case duplicate
      then show ?thesis
        using ledger_duplicate [OF ledger_skip [OF h1] duplicate(1)] by (simp add: skip_spaces_used)
    next
      case digit
      then show ?thesis
        using ledger_digit [OF ledger_skip [OF h1] digit(1)] by (simp add: skip_spaces_used)
    next
      case ended
      then show ?thesis
        by simp
    next
      case other
      then show ?thesis
        by simp
    qed
  qed
  show ?case
    by (intro conjI c1 c2 c3 c4 c5 c6 c7 c8)
qed

section \<open>One more character at the end of the input\<close>

lemma well_formed_advances: "well_formed p \<Longrightarrow> advances p q \<Longrightarrow> well_formed q"
  by (auto simp: well_formed_def advances_def)

lemma well_formed_skip: "well_formed p \<Longrightarrow> well_formed (skip_spaces p)"
  using skip_spaces_advances well_formed_advances by blast

lemma well_formed_next: "well_formed p \<Longrightarrow> peek p = c # cs \<Longrightarrow> well_formed (snd (next_char p))"
  using next_char_advances well_formed_advances by blast

lemma extend_fields [simp]:
  "self_i (lengthen d p) = self_i p"
  "self_used_digits (lengthen d p) = self_used_digits p"
  "self_len (lengthen d p) = Suc (self_len p)"
  "self_text (lengthen d p) = self_text p @ [d]"
  by (simp_all add: lengthen_def)

lemma extend_update [simp]:
  "(lengthen d p)\<lparr>self_i := k\<rparr> = lengthen d (p\<lparr>self_i := k\<rparr>)"
  "(lengthen d p)\<lparr>self_used_digits := u\<rparr> = lengthen d (p\<lparr>self_used_digits := u\<rparr>)"
  by (simp_all add: lengthen_def)

lemma peek_extend:
  "well_formed p \<Longrightarrow> peek (lengthen d p) = (if self_i p < self_len p then peek p else [d])"
  by (auto simp: peek_def well_formed_def nth_append)

lemma peek_extend_Cons: "well_formed p \<Longrightarrow> peek p = c # cs \<Longrightarrow> peek (lengthen d p) = c # cs"
  using peek_Cons [of p c cs] by (simp add: peek_extend)

lemma next_char_extend: "snd (next_char (lengthen d p)) = lengthen d (snd (next_char p))"
  by (simp add: next_char_def)

lemma skip_spaces_extend:
  "well_formed p \<Longrightarrow> \<not> unicode_isspace d \<Longrightarrow> d \<noteq> 96
   \<Longrightarrow> skip_spaces (lengthen d p) = lengthen d (skip_spaces p)"
proof (induction p rule: skip_spaces.induct)
  case (1 p)
  show ?case
  proof (cases "isspace (peek p) \<or> peek p = py ''`''")
    case True
    then obtain c where c: "peek p = [c]"
      using peek_cases [of p] by (auto simp: isspace_def)
    have same: "peek (lengthen d p) = peek p"
      using peek_extend_Cons [OF "1.prems"(1) c] c by simp
    have "skip_spaces (lengthen d (snd (next_char p))) = lengthen d (skip_spaces (snd (next_char p)))"
      using "1.IH" True well_formed_next [OF "1.prems"(1) c] "1.prems"(2,3) by simp
    then show ?thesis
      using True same
      by (subst skip_spaces.simps [of "lengthen d p"], subst skip_spaces.simps [of p])
         (simp add: next_char_extend)
  next
    case False
    then have "\<not> (isspace (peek (lengthen d p)) \<or> peek (lengthen d p) = py ''`'')"
      using "1.prems" by (auto simp: peek_extend isspace_def)
    then show ?thesis
      using False
      by (subst skip_spaces.simps [of "lengthen d p"], subst skip_spaces.simps [of p]) simp
  qed
qed

lemma all_from_Suc: "(\<And>k. n \<le> k \<Longrightarrow> P (Suc k)) \<Longrightarrow> \<forall>m. Suc n \<le> m \<longrightarrow> P m"
  by (metis Suc_le_D Suc_le_mono)

lemma extend_all:
  assumes d: "49 \<le> d" "d \<le> 54"
  shows
  "(\<forall>p r p'. parse_expression n p = (r, p') \<longrightarrow> well_formed p \<longrightarrow> \<not> isl r \<longrightarrow>
      (\<forall>m. n \<le> m \<longrightarrow> parse_expression m (lengthen d p) = (r, lengthen d p')))
   \<and> (\<forall>val p r p'. expression_loop n val p = (r, p') \<longrightarrow> well_formed p \<longrightarrow> \<not> isl r \<longrightarrow>
      (\<forall>m. n \<le> m \<longrightarrow> expression_loop m val (lengthen d p) = (r, lengthen d p')))
   \<and> (\<forall>p r p'. parse_term n p = (r, p') \<longrightarrow> well_formed p \<longrightarrow> \<not> isl r \<longrightarrow>
      (\<forall>m. n \<le> m \<longrightarrow> parse_term m (lengthen d p) = (r, lengthen d p')))
   \<and> (\<forall>val p r p'. term_loop n val p = (r, p') \<longrightarrow> well_formed p \<longrightarrow> \<not> isl r \<longrightarrow>
      (\<forall>m. n \<le> m \<longrightarrow> term_loop m val (lengthen d p) = (r, lengthen d p')))
   \<and> (\<forall>p r p'. parse_power n p = (r, p') \<longrightarrow> well_formed p \<longrightarrow> \<not> isl r \<longrightarrow>
      (\<forall>m. n \<le> m \<longrightarrow> parse_power m (lengthen d p) = (r, lengthen d p')))
   \<and> (\<forall>p r p'. parse_factor n p = (r, p') \<longrightarrow> well_formed p \<longrightarrow> \<not> isl r \<longrightarrow>
      (\<forall>m. n \<le> m \<longrightarrow> parse_factor m (lengthen d p) = (r, lengthen d p')))
   \<and> (\<forall>val p r p'. factor_loop n val p = (r, p') \<longrightarrow> well_formed p \<longrightarrow> \<not> isl r \<longrightarrow>
      (\<forall>m. n \<le> m \<longrightarrow> factor_loop m val (lengthen d p) = (r, lengthen d p')))
   \<and> (\<forall>p r p'. parse_primary n p = (r, p') \<longrightarrow> well_formed p \<longrightarrow> \<not> isl r \<longrightarrow>
      (\<forall>m. n \<le> m \<longrightarrow> parse_primary m (lengthen d p) = (r, lengthen d p')))"
proof -
  have d_space: "\<not> unicode_isspace d" and d_tick: "d \<noteq> 96"
    using d by (auto simp: unicode_isspace_def)
  show ?thesis
  proof (induction n)
  case 0
  show ?case by simp
next
  case (Suc n)
  have expr: "(\<forall>m. n \<le> m \<longrightarrow> parse_expression m (lengthen d p) = (r, lengthen d p'))"
    if "parse_expression n p = (r, p')" "well_formed p" "\<not> isl r" for p r p'
    using Suc [THEN conjunct1, rule_format, OF that] by simp
  have eloop: "(\<forall>m. n \<le> m \<longrightarrow> expression_loop m val (lengthen d p) = (r, lengthen d p'))"
    if "expression_loop n val p = (r, p')" "well_formed p" "\<not> isl r" for val p r p'
    using Suc [THEN conjunct2, THEN conjunct1, rule_format, OF that] by simp
  have trm: "(\<forall>m. n \<le> m \<longrightarrow> parse_term m (lengthen d p) = (r, lengthen d p'))"
    if "parse_term n p = (r, p')" "well_formed p" "\<not> isl r" for p r p'
    using Suc [THEN conjunct2, THEN conjunct2, THEN conjunct1, rule_format, OF that] by simp
  have tloop: "(\<forall>m. n \<le> m \<longrightarrow> term_loop m val (lengthen d p) = (r, lengthen d p'))"
    if "term_loop n val p = (r, p')" "well_formed p" "\<not> isl r" for val p r p'
    using Suc [THEN conjunct2, THEN conjunct2, THEN conjunct2, THEN conjunct1, rule_format, OF that] by simp
  have pow: "(\<forall>m. n \<le> m \<longrightarrow> parse_power m (lengthen d p) = (r, lengthen d p'))"
    if "parse_power n p = (r, p')" "well_formed p" "\<not> isl r" for p r p'
    using Suc [THEN conjunct2, THEN conjunct2, THEN conjunct2, THEN conjunct2, THEN conjunct1, rule_format, OF that] by simp
  have fac: "(\<forall>m. n \<le> m \<longrightarrow> parse_factor m (lengthen d p) = (r, lengthen d p'))"
    if "parse_factor n p = (r, p')" "well_formed p" "\<not> isl r" for p r p'
    using Suc [THEN conjunct2, THEN conjunct2, THEN conjunct2, THEN conjunct2, THEN conjunct2, THEN conjunct1, rule_format, OF that] by simp
  have floop: "(\<forall>m. n \<le> m \<longrightarrow> factor_loop m val (lengthen d p) = (r, lengthen d p'))"
    if "factor_loop n val p = (r, p')" "well_formed p" "\<not> isl r" for val p r p'
    using Suc [THEN conjunct2, THEN conjunct2, THEN conjunct2, THEN conjunct2, THEN conjunct2, THEN conjunct2, THEN conjunct1, rule_format, OF that] by simp
  have prim: "(\<forall>m. n \<le> m \<longrightarrow> parse_primary m (lengthen d p) = (r, lengthen d p'))"
    if "parse_primary n p = (r, p')" "well_formed p" "\<not> isl r" for p r p'
    using Suc [THEN conjunct2, THEN conjunct2, THEN conjunct2, THEN conjunct2, THEN conjunct2, THEN conjunct2, THEN conjunct2, rule_format, OF that] by simp
  have c1: "\<forall>p r p'. parse_expression (Suc n) p = (r, p') \<longrightarrow> well_formed p \<longrightarrow> \<not> isl r \<longrightarrow>
      (\<forall>m. Suc n \<le> m \<longrightarrow> parse_expression m (lengthen d p) = (r, lengthen d p'))"
  proof ((rule allI)+, (rule impI)+)
    fix p r p'
    assume h0: "parse_expression (Suc n) p = (r, p')"
    assume h1: "well_formed p"
    assume h2: "\<not> isl r"
    show "(\<forall>m. Suc n \<le> m \<longrightarrow> parse_expression m (lengthen d p) = (r, lengthen d p'))"
      using h0
    proof (cases rule: parse_expression_Suc_cases)
      case (fail e)
      then show ?thesis
        using h2 fail by simp
    next
      case (loop val p1)
      have w1: "well_formed p1"
        using well_formed_advances [OF h1] cursor_parse_term [OF loop(1)] by simp
      show ?thesis
      proof (rule all_from_Suc)
        fix k :: nat
        assume k: "n \<le> k"
        have t: "parse_term k (lengthen d p) = (Inr val, lengthen d p1)"
          using trm [OF loop(1) h1] k by simp
        have l: "expression_loop k val (lengthen d p1) = (r, lengthen d p')"
          using eloop [OF loop(2) w1 h2] k by simp
        show "parse_expression (Suc k) (lengthen d p) = (r, lengthen d p')"
          using t l
          by (simp add: Let_def next_char_def skip_spaces_extend peek_extend_Cons d_space d_tick)
      qed
    qed
  qed
  have c2: "\<forall>val p r p'. expression_loop (Suc n) val p = (r, p') \<longrightarrow> well_formed p \<longrightarrow> \<not> isl r \<longrightarrow>
      (\<forall>m. Suc n \<le> m \<longrightarrow> expression_loop m val (lengthen d p) = (r, lengthen d p'))"
  proof ((rule allI)+, (rule impI)+)
    fix val p r p'
    assume h0: "expression_loop (Suc n) val p = (r, p')"
    assume h1: "well_formed p"
    assume h2: "\<not> isl r"
    show "(\<forall>m. Suc n \<le> m \<longrightarrow> expression_loop m val (lengthen d p) = (r, lengthen d p'))"
      using h0
    proof (cases rule: expression_loop_Suc_cases)
      case stop
      have ws: "well_formed (skip_spaces p)"
        using well_formed_skip [OF h1] .
      have pk: "peek (lengthen d (skip_spaces p)) = peek (skip_spaces p) \<or> peek (lengthen d (skip_spaces p)) = [d]"
        using peek_extend [OF ws, of d] by simp
      show ?thesis
      proof (rule all_from_Suc)
        fix k :: nat
        assume k: "n \<le> k"
        show "expression_loop (Suc k) val (lengthen d p) = (r, lengthen d p')"
          using stop pk h1 d
          by (auto simp: Let_def next_char_def skip_spaces_extend peek_extend_Cons d_space d_tick)
      qed
    next
      case (fail c e)
      then show ?thesis
        using h2 fail by simp
    next
      case (exn c rhs x)
      then show ?thesis
        using h2 exn by simp
    next
      case (loop c rhs p3 v)
      have ws: "well_formed (skip_spaces p)"
        using well_formed_skip [OF h1] .
      have wn: "well_formed (snd (next_char (skip_spaces p)))"
        using well_formed_next [OF ws loop(1)] .
      have w3: "well_formed p3"
        using well_formed_advances [OF wn] cursor_parse_term [OF loop(2)] by simp
      have pk: "peek (lengthen d (skip_spaces p)) = [c]"
        using peek_extend_Cons [OF ws loop(1)] .
      show ?thesis
      proof (rule all_from_Suc)
        fix k :: nat
        assume k: "n \<le> k"
        have t: "parse_term k (lengthen d (snd (next_char (skip_spaces p)))) = (Inr rhs, lengthen d p3)"
          using trm [OF loop(2) wn] k by simp
        have l: "expression_loop k v (lengthen d p3) = (r, lengthen d p')"
          using eloop [OF loop(3) w3 h2] k by simp
        show "expression_loop (Suc k) val (lengthen d p) = (r, lengthen d p')"
          using t [unfolded next_char_def] l pk loop(1,4,5) h1
          by (simp add: Let_def next_char_def skip_spaces_extend peek_extend_Cons d_space d_tick)
      qed
    qed
  qed
  have c3: "\<forall>p r p'. parse_term (Suc n) p = (r, p') \<longrightarrow> well_formed p \<longrightarrow> \<not> isl r \<longrightarrow>
      (\<forall>m. Suc n \<le> m \<longrightarrow> parse_term m (lengthen d p) = (r, lengthen d p'))"
  proof ((rule allI)+, (rule impI)+)
    fix p r p'
    assume h0: "parse_term (Suc n) p = (r, p')"
    assume h1: "well_formed p"
    assume h2: "\<not> isl r"
    show "(\<forall>m. Suc n \<le> m \<longrightarrow> parse_term m (lengthen d p) = (r, lengthen d p'))"
      using h0
    proof (cases rule: parse_term_Suc_cases)
      case (fail e)
      then show ?thesis
        using h2 fail by simp
    next
      case (loop val p1)
      have w1: "well_formed p1"
        using well_formed_advances [OF h1] cursor_parse_power [OF loop(1)] by simp
      show ?thesis
      proof (rule all_from_Suc)
        fix k :: nat
        assume k: "n \<le> k"
        have t: "parse_power k (lengthen d p) = (Inr val, lengthen d p1)"
          using pow [OF loop(1) h1] k by simp
        have l: "term_loop k val (lengthen d p1) = (r, lengthen d p')"
          using tloop [OF loop(2) w1 h2] k by simp
        show "parse_term (Suc k) (lengthen d p) = (r, lengthen d p')"
          using t l
          by (simp add: Let_def next_char_def skip_spaces_extend peek_extend_Cons d_space d_tick)
      qed
    qed
  qed
  have c4: "\<forall>val p r p'. term_loop (Suc n) val p = (r, p') \<longrightarrow> well_formed p \<longrightarrow> \<not> isl r \<longrightarrow>
      (\<forall>m. Suc n \<le> m \<longrightarrow> term_loop m val (lengthen d p) = (r, lengthen d p'))"
  proof ((rule allI)+, (rule impI)+)
    fix val p r p'
    assume h0: "term_loop (Suc n) val p = (r, p')"
    assume h1: "well_formed p"
    assume h2: "\<not> isl r"
    show "(\<forall>m. Suc n \<le> m \<longrightarrow> term_loop m val (lengthen d p) = (r, lengthen d p'))"
      using h0
    proof (cases rule: term_loop_Suc_cases)
      case stop
      have ws: "well_formed (skip_spaces p)"
        using well_formed_skip [OF h1] .
      have pk: "peek (lengthen d (skip_spaces p)) = peek (skip_spaces p) \<or> peek (lengthen d (skip_spaces p)) = [d]"
        using peek_extend [OF ws, of d] by simp
      show ?thesis
      proof (rule all_from_Suc)
        fix k :: nat
        assume k: "n \<le> k"
        show "term_loop (Suc k) val (lengthen d p) = (r, lengthen d p')"
          using stop pk h1 d
          by (auto simp: Let_def next_char_def skip_spaces_extend peek_extend_Cons d_space d_tick)
      qed
    next
      case (fail c e)
      then show ?thesis
        using h2 fail by simp
    next
      case (exn c rhs x)
      then show ?thesis
        using h2 exn by simp
    next
      case (zero rhs)
      then show ?thesis
        using h2 zero by simp
    next
      case (loop c rhs p3 v)
      have ws: "well_formed (skip_spaces p)"
        using well_formed_skip [OF h1] .
      have wn: "well_formed (snd (next_char (skip_spaces p)))"
        using well_formed_next [OF ws loop(1)] .
      have w3: "well_formed p3"
        using well_formed_advances [OF wn] cursor_parse_power [OF loop(2)] by simp
      have pk: "peek (lengthen d (skip_spaces p)) = [c]"
        using peek_extend_Cons [OF ws loop(1)] .
      show ?thesis
      proof (rule all_from_Suc)
        fix k :: nat
        assume k: "n \<le> k"
        have t: "parse_power k (lengthen d (snd (next_char (skip_spaces p)))) = (Inr rhs, lengthen d p3)"
          using pow [OF loop(2) wn] k by simp
        have l: "term_loop k v (lengthen d p3) = (r, lengthen d p')"
          using tloop [OF loop(3) w3 h2] k by simp
        show "term_loop (Suc k) val (lengthen d p) = (r, lengthen d p')"
          using t [unfolded next_char_def] l pk loop(1,4,5) h1
          by (simp add: Let_def next_char_def skip_spaces_extend peek_extend_Cons d_space d_tick)
      qed
    qed
  qed
  have c5: "\<forall>p r p'. parse_power (Suc n) p = (r, p') \<longrightarrow> well_formed p \<longrightarrow> \<not> isl r \<longrightarrow>
      (\<forall>m. Suc n \<le> m \<longrightarrow> parse_power m (lengthen d p) = (r, lengthen d p'))"
  proof ((rule allI)+, (rule impI)+)
    fix p r p'
    assume h0: "parse_power (Suc n) p = (r, p')"
    assume h1: "well_formed p"
    assume h2: "\<not> isl r"
    show "(\<forall>m. Suc n \<le> m \<longrightarrow> parse_power m (lengthen d p) = (r, lengthen d p'))"
      using h0
    proof (cases rule: parse_power_Suc_cases)
      case (fail e)
      then show ?thesis
        using h2 fail by simp
    next
      case (single val p1)
      have w1: "well_formed p1"
        using well_formed_advances [OF h1] cursor_parse_factor [OF single(1)] by simp
      have ws: "well_formed (skip_spaces p1)"
        using well_formed_skip [OF w1] .
      have pk: "peek (lengthen d (skip_spaces p1)) = peek (skip_spaces p1) \<or> peek (lengthen d (skip_spaces p1)) = [d]"
        using peek_extend [OF ws, of d] by simp
      show ?thesis
      proof (rule all_from_Suc)
        fix k :: nat
        assume k: "n \<le> k"
        have t: "parse_factor k (lengthen d p) = (Inr val, lengthen d p1)"
          using fac [OF single(1) h1] k by simp
        show "parse_power (Suc k) (lengthen d p) = (r, lengthen d p')"
          using t single pk w1 d
          by (auto simp: Let_def next_char_def skip_spaces_extend peek_extend_Cons d_space d_tick)
      qed
    next
      case (rhs_fail val p1 e)
      then show ?thesis
        using h2 rhs_fail by simp
    next
      case (invalid val p1 rhs x)
      then show ?thesis
        using h2 invalid by simp
    next
      case (power val p1 rhs v)
      have w1: "well_formed p1"
        using well_formed_advances [OF h1] cursor_parse_factor [OF power(1)] by simp
      have ws: "well_formed (skip_spaces p1)"
        using well_formed_skip [OF w1] .
      have pc: "peek (skip_spaces p1) = [94]"
        using power(2) by simp
      have wn: "well_formed (snd (next_char (skip_spaces p1)))"
        using well_formed_next [OF ws pc] .
      have pk: "peek (lengthen d (skip_spaces p1)) = [94]"
        using peek_extend_Cons [OF ws pc] .
      show ?thesis
      proof (rule all_from_Suc)
        fix k :: nat
        assume k: "n \<le> k"
        have t: "parse_factor k (lengthen d p) = (Inr val, lengthen d p1)"
          using fac [OF power(1) h1] k by simp
        have l: "parse_power k (lengthen d (snd (next_char (skip_spaces p1)))) = (Inr rhs, lengthen d p')"
          using pow [OF power(3) wn] k by simp
        show "parse_power (Suc k) (lengthen d p) = (r, lengthen d p')"
          using t l [unfolded next_char_def] pk power(4,5) w1
          by (simp add: Let_def next_char_def skip_spaces_extend peek_extend_Cons d_space d_tick)
      qed
    qed
  qed
  have c6: "\<forall>p r p'. parse_factor (Suc n) p = (r, p') \<longrightarrow> well_formed p \<longrightarrow> \<not> isl r \<longrightarrow>
      (\<forall>m. Suc n \<le> m \<longrightarrow> parse_factor m (lengthen d p) = (r, lengthen d p'))"
  proof ((rule allI)+, (rule impI)+)
    fix p r p'
    assume h0: "parse_factor (Suc n) p = (r, p')"
    assume h1: "well_formed p"
    assume h2: "\<not> isl r"
    show "(\<forall>m. Suc n \<le> m \<longrightarrow> parse_factor m (lengthen d p) = (r, lengthen d p'))"
      using h0
    proof (cases rule: parse_factor_Suc_cases)
      case (fail e)
      then show ?thesis
        using h2 fail by simp
    next
      case (loop val p1)
      have w1: "well_formed p1"
        using well_formed_advances [OF h1] cursor_parse_primary [OF loop(1)] by simp
      have ws: "well_formed (skip_spaces p1)"
        using well_formed_skip [OF w1] .
      show ?thesis
      proof (rule all_from_Suc)
        fix k :: nat
        assume k: "n \<le> k"
        have t: "parse_primary k (lengthen d p) = (Inr val, lengthen d p1)"
          using prim [OF loop(1) h1] k by simp
        have l: "factor_loop k val (lengthen d (skip_spaces p1)) = (r, lengthen d p')"
          using floop [OF loop(2) ws h2] k by simp
        show "parse_factor (Suc k) (lengthen d p) = (r, lengthen d p')"
          using t l w1
          by (simp add: Let_def next_char_def skip_spaces_extend peek_extend_Cons d_space d_tick)
      qed
    qed
  qed
  have c7: "\<forall>val p r p'. factor_loop (Suc n) val p = (r, p') \<longrightarrow> well_formed p \<longrightarrow> \<not> isl r \<longrightarrow>
      (\<forall>m. Suc n \<le> m \<longrightarrow> factor_loop m val (lengthen d p) = (r, lengthen d p'))"
  proof ((rule allI)+, (rule impI)+)
    fix val p r p'
    assume h0: "factor_loop (Suc n) val p = (r, p')"
    assume h1: "well_formed p"
    assume h2: "\<not> isl r"
    show "(\<forall>m. Suc n \<le> m \<longrightarrow> factor_loop m val (lengthen d p) = (r, lengthen d p'))"
      using h0
    proof (cases rule: factor_loop_Suc_cases)
      case stop
      have pk: "peek (lengthen d p) = peek p \<or> peek (lengthen d p) = [d]"
        using peek_extend [OF h1, of d] by simp
      show ?thesis
      proof (rule all_from_Suc)
        fix k :: nat
        assume k: "n \<le> k"
        show "factor_loop (Suc k) val (lengthen d p) = (r, lengthen d p')"
          using stop pk d
          by (auto simp: Let_def next_char_def skip_spaces_extend peek_extend_Cons d_space d_tick)
      qed
    next
      case (exn x)
      then show ?thesis
        using h2 exn by simp
    next
      case invalid
      then show ?thesis
        using h2 invalid by simp
    next
      case (error x)
      then show ?thesis
        using h2 error by simp
    next
      case (loop v)
      have pc: "peek p = [33]"
        using loop(1) by simp
      have wn: "well_formed (snd (next_char p))"
        using well_formed_next [OF h1 pc] .
      have ws: "well_formed (skip_spaces (snd (next_char p)))"
        using well_formed_skip [OF wn] .
      have pk: "peek (lengthen d p) = [33]"
        using peek_extend_Cons [OF h1 pc] .
      show ?thesis
      proof (rule all_from_Suc)
        fix k :: nat
        assume k: "n \<le> k"
        have l: "factor_loop k v (lengthen d (skip_spaces (snd (next_char p)))) = (r, lengthen d p')"
          using floop [OF loop(2) ws h2] k by simp
        show "factor_loop (Suc k) val (lengthen d p) = (r, lengthen d p')"
          using l [unfolded next_char_def] pk loop(3-7) wn [unfolded next_char_def]
          by (simp add: Let_def next_char_def skip_spaces_extend peek_extend_Cons d_space d_tick)
      qed
    qed
  qed
  have c8: "\<forall>p r p'. parse_primary (Suc n) p = (r, p') \<longrightarrow> well_formed p \<longrightarrow> \<not> isl r \<longrightarrow>
      (\<forall>m. Suc n \<le> m \<longrightarrow> parse_primary m (lengthen d p) = (r, lengthen d p'))"
  proof ((rule allI)+, (rule impI)+)
    fix p r p'
    assume h0: "parse_primary (Suc n) p = (r, p')"
    assume h1: "well_formed p"
    assume h2: "\<not> isl r"
    show "(\<forall>m. Suc n \<le> m \<longrightarrow> parse_primary m (lengthen d p) = (r, lengthen d p'))"
      using h0
    proof (cases rule: parse_primary_Suc_cases)
      case (paren_fail e)
      then show ?thesis
        using h2 paren_fail by simp
    next
      case (paren_missing val p2)
      then show ?thesis
        using h2 paren_missing by simp
    next
      case (paren val p2)
      have ws: "well_formed (skip_spaces p)"
        using well_formed_skip [OF h1] .
      have pc: "peek (skip_spaces p) = [40]"
        using paren(1) by simp
      have wn: "well_formed (snd (next_char (skip_spaces p)))"
        using well_formed_next [OF ws pc] .
      have w2: "well_formed (skip_spaces p2)"
        using well_formed_skip [OF well_formed_advances [OF wn]] cursor_parse_expression [OF paren(2)] by simp
      have w2a: "well_formed p2"
        using well_formed_advances [OF wn] cursor_parse_expression [OF paren(2)] by simp
      have pc2: "peek (skip_spaces p2) = [41]"
        using paren(3) by simp
      have pk: "peek (lengthen d (skip_spaces p)) = [40]"
        using peek_extend_Cons [OF ws pc] .
      have pk2: "peek (lengthen d (skip_spaces p2)) = [41]"
        using peek_extend_Cons [OF w2 pc2] .
      show ?thesis
      proof (rule all_from_Suc)
        fix k :: nat
        assume k: "n \<le> k"
        have t: "parse_expression k (lengthen d (snd (next_char (skip_spaces p)))) = (Inr val, lengthen d p2)"
          using expr [OF paren(2) wn] k by simp
        show "parse_primary (Suc k) (lengthen d p) = (r, lengthen d p')"
          using t [unfolded next_char_def] pk pk2 paren(4,5) h1 w2a
          by (simp add: Let_def next_char_def skip_spaces_extend peek_extend_Cons d_space d_tick)
      qed
    next
      case disallowed
      then show ?thesis
        using h2 disallowed by simp
    next
      case duplicate
      then show ?thesis
        using h2 duplicate by simp
    next
      case digit
      have ws: "well_formed (skip_spaces p)"
        using well_formed_skip [OF h1] .
      obtain c where pc: "peek (skip_spaces p) = [c]"
        using isdigit_peek [OF digit(1)] by blast
      have pk: "peek (lengthen d (skip_spaces p)) = peek (skip_spaces p)"
        using peek_extend_Cons [OF ws pc] pc by simp
      have np: "peek (skip_spaces p) \<noteq> py ''(''"
        using digit(1) by (auto simp: isdigit_def unicode_isdigit_def)
      show ?thesis
      proof (rule all_from_Suc)
        fix k :: nat
        assume k: "n \<le> k"
        show "parse_primary (Suc k) (lengthen d p) = (r, lengthen d p')"
          using pk np digit h1
          by (simp add: Let_def next_char_def skip_spaces_extend peek_extend_Cons d_space d_tick skip_spaces_used)
      qed
    next
      case ended
      then show ?thesis
        using h2 ended by simp
    next
      case other
      then show ?thesis
        using h2 other by simp
    qed
  qed
  show ?case
    by (intro conjI c1 c2 c3 c4 c5 c6 c7 c8)
qed
qed
section \<open>The claims on given inputs\<close>

text \<open>
  C1. For the input \<open>6^4+5*(3!+2)+1\<close>, \<open>parse\<close> succeeds and returns the integer 1337;
  for the input \<open>5*(4+3)+6!\<close>, it succeeds and returns the integer 755.
\<close>

theorem C1_end_to_end:
  "parse (py ''6^4+5*(3!+2)+1'') = Inr (PyInt 1337)
   \<and> parse (py ''5*(4+3)+6!'') = Inr (PyInt 755)"
  by (simp add: parser_eval float_eval float_pow_def cong: eval_cong)

end
